theory Spec2Isabelle
  imports Main "HOL-Library.List_Lexorder" "HOL-Library.Product_Lexorder" "HOL-Library.Multiset"
begin

section \<open>JavaScript strings\<close>

text \<open>
  A JavaScript string is a sequence of UTF-16 code units. It is modelled as a list of
  natural numbers, one per code unit, so that the en dash (U+2013), the em dash (U+2014)
  and the minus sign (U+2212) are single elements, as they are for the regular
  expressions of the source. \<open>js\<close> turns an ASCII literal into such a string.
\<close>

type_synonym jsstring = "nat list"

definition js :: "string \<Rightarrow> jsstring" where
  "js s = map of_char s"

text \<open>
  \<open>String.prototype.localeCompare\<close> is a function of the host: its result depends on the
  collation of the runtime and is not computed by the code of this repository. It is a
  parameter, named \<open>localeCompare\<close>, of every function that calls it. The language standard
  asks of it what it asks of a comparator given to \<open>Array.prototype.sort\<close>: that it is a
  consistent comparison, which \<open>consistentComparator\<close> states (the two directions agree, and
  "not after" is transitive). Nothing says that it returns zero only for equal strings.
\<close>

type_synonym collator = "jsstring \<Rightarrow> jsstring \<Rightarrow> int"

definition consistentComparator :: "('a \<Rightarrow> 'a \<Rightarrow> int) \<Rightarrow> bool" where
  "consistentComparator cmp =
     ((\<forall>a b. (cmp a b < 0) = (cmp b a > 0))
      \<and> (\<forall>a b c. cmp a b \<le> 0 \<and> cmp b c \<le> 0 \<longrightarrow> cmp a c \<le> 0))"

text \<open>
  Two collations for the examples. \<open>codeUnitCompare\<close> compares the code units
  lexicographically. \<open>canonicalCompare\<close> does the same after composing the letter e followed
  by the combining acute accent (U+0065 U+0301) into the single letter U+00E9: the two
  spellings are canonically equivalent, and \<open>localeCompare\<close> returns zero for canonically
  equivalent strings.
\<close>

definition codeUnitCompare :: collator where
  "codeUnitCompare a b = (if a = b then 0 else if a < b then - 1 else 1)"

fun composeAcute :: "jsstring \<Rightarrow> jsstring" where
  "composeAcute (a # b # s) =
     (if a = 101 \<and> b = 769 then 233 # composeAcute s else a # composeAcute (b # s))"
| "composeAcute s = s"

definition canonicalCompare :: collator where
  "canonicalCompare a b = codeUnitCompare (composeAcute a) (composeAcute b)"

text \<open>
  \<open>toLowerCase\<close> and \<open>toUpperCase\<close> are modelled on the ASCII letters; every other code unit
  is left as it is.
\<close>

definition toLowerCase :: "jsstring \<Rightarrow> jsstring" where
  "toLowerCase s = map (\<lambda>c. if 65 \<le> c \<and> c \<le> 90 then c + 32 else c) s"

definition toUpperCase :: "jsstring \<Rightarrow> jsstring" where
  "toUpperCase s = map (\<lambda>c. if 97 \<le> c \<and> c \<le> 122 then c - 32 else c) s"

definition startsWith :: "jsstring \<Rightarrow> jsstring \<Rightarrow> bool" where
  "startsWith s p = (take (length p) s = p)"

definition endsWith :: "jsstring \<Rightarrow> jsstring \<Rightarrow> bool" where
  "endsWith s p = (length p \<le> length s \<and> drop (length s - length p) s = p)"

text \<open>\<open>s.includes(sub)\<close>: \<open>sub\<close> occurs in \<open>s\<close> as a contiguous run.\<close>

fun jsIncludes :: "jsstring \<Rightarrow> jsstring \<Rightarrow> bool" where
  "jsIncludes [] sub = (sub = [])"
| "jsIncludes (c # cs) sub = (startsWith (c # cs) sub \<or> jsIncludes cs sub)"

text \<open>
  \<open>s.split(sep)\<close> for a separator that is one code unit of a class: the pieces between the
  separators, empty pieces included.
\<close>

fun splitOn :: "(nat \<Rightarrow> bool) \<Rightarrow> jsstring \<Rightarrow> jsstring list" where
  "splitOn P [] = [[]]"
| "splitOn P (c # cs) =
     (if P c then [] # splitOn P cs
      else (case splitOn P cs of
              [] \<Rightarrow> [[c]]
            | w # ws \<Rightarrow> (c # w) # ws))"

text \<open>\<open>path.split(/[\\/]/).filter(Boolean)\<close>: the non-empty pieces between slashes.\<close>

definition isSlash :: "nat \<Rightarrow> bool" where
  "isSlash c = (c = 47 \<or> c = 92)"

definition splitPath :: "jsstring \<Rightarrow> jsstring list" where
  "splitPath p = filter (\<lambda>s. s \<noteq> []) (splitOn isSlash p)"

text \<open>
  The white space of \<open>\s\<close> and of \<open>trim\<close>: tab, line feed, vertical tab, form feed,
  carriage return, space, no-break space, U+1680, U+2000 to U+200A, the line and paragraph
  separators, U+202F, U+205F, U+3000 and the byte order mark.
\<close>

definition isWhiteSpace :: "nat \<Rightarrow> bool" where
  "isWhiteSpace c = ((9 \<le> c \<and> c \<le> 13) \<or> c = 32 \<or> c = 160 \<or> c = 5760
       \<or> (8192 \<le> c \<and> c \<le> 8202) \<or> c = 8232 \<or> c = 8233 \<or> c = 8239 \<or> c = 8287
       \<or> c = 12288 \<or> c = 65279)"

definition trim :: "jsstring \<Rightarrow> jsstring" where
  "trim s = rev (dropWhile isWhiteSpace (rev (dropWhile isWhiteSpace s)))"

text \<open>\<open>s.replace(/[C]+/g, r)\<close>: every maximal run of code units of the class becomes \<open>r\<close>.\<close>

function replaceRuns :: "(nat \<Rightarrow> bool) \<Rightarrow> jsstring \<Rightarrow> jsstring \<Rightarrow> jsstring" where
  "replaceRuns P r [] = []"
| "replaceRuns P r (c # cs) =
     (if P c then r @ replaceRuns P r (dropWhile P cs) else c # replaceRuns P r cs)"
  by pat_completeness auto
termination
  by (relation "measure (\<lambda>(P, r, s). length s)")
     (auto simp: le_imp_less_Suc length_dropWhile_le)

definition isDigit :: "nat \<Rightarrow> bool" where
  "isDigit c = (48 \<le> c \<and> c \<le> 57)"

text \<open>\<open>parseInt(s, 10)\<close> on a string of decimal digits.\<close>

definition parseInt :: "jsstring \<Rightarrow> int" where
  "parseInt ds = foldl (\<lambda>a c. 10 * a + (int c - 48)) 0 ds"

text \<open>The decimal text of an integer, as a template literal prints it.\<close>

fun natToString :: "nat \<Rightarrow> jsstring" where
  "natToString n = (if n < 10 then [48 + n] else natToString (n div 10) @ [48 + n mod 10])"

declare natToString.simps [simp del]

definition numberToString :: "int \<Rightarrow> jsstring" where
  "numberToString i = (if i < 0 then 45 # natToString (nat (- i)) else natToString (nat i))"

section \<open>Data model (projectService.ts)\<close>

datatype confidence = High | Medium | Low | NoConfidence

text \<open>\<open>subfolderOverride?: string | null\<close> has three states.\<close>

datatype subfolder_override = Undefined | Null | Label jsstring

text \<open>
  \<open>interface ProjectPhoto\<close>. The opaque \<open>fileHandle\<close> and \<open>metadata\<close> fields are left
  out; \<open>filePath\<close> is optional in the source, the nullable fields are options, numbers
  are integers (timestamps are integer milliseconds).
\<close>

record photo =
  photoId :: jsstring
  originalName :: jsstring
  currentName :: jsstring
  timestamp :: int
  day :: "int option"
  bucket :: "jsstring option"
  sequence :: "int option"
  favorite :: bool
  rating :: int
  archived :: bool
  thumbnail :: jsstring
  mimeType :: jsstring
  filePath :: "jsstring option"
  sourceFolder :: jsstring
  folderHierarchy :: "jsstring list"
  detectedDay :: "int option"
  detectedBucket :: "jsstring option"
  isPreOrganized :: bool
  organizationConfidence :: confidence
  subfolderOverride :: subfolder_override

section \<open>Ordering engine (photoOrdering.ts)\<close>

datatype group_mode = BySubfolder | ByBucket | ByDay

record SortOptions =
  groupBy :: "group_mode option"
  separateVideos :: bool
  selectedDay :: "int option"
  getSubfolderGroup :: "(photo \<Rightarrow> int option \<Rightarrow> jsstring) option"
  isVideo :: "(photo \<Rightarrow> bool) option"

record OrderingGroup =
  label :: jsstring
  groupPhotos :: "photo list"
  startIndex :: nat

record OrderingResult =
  photos :: "photo list"
  indexMap :: "jsstring \<rightharpoonup> nat"
  groups :: "OrderingGroup list option"

text \<open>\<open>a.filePath || a.originalName || ''\<close>: an absent or empty path falls back to the name.\<close>

definition pathKey :: "photo \<Rightarrow> jsstring" where
  "pathKey a = (case filePath a of
                  None \<Rightarrow> originalName a
                | Some p \<Rightarrow> if p = [] then originalName a else p)"

definition comparePhotos :: "collator \<Rightarrow> photo \<Rightarrow> photo \<Rightarrow> int" where
  "comparePhotos localeCompare a b =
     (if timestamp a \<noteq> timestamp b then timestamp a - timestamp b
      else let pathCmp = localeCompare (pathKey a) (pathKey b) in
        if pathCmp \<noteq> 0 then pathCmp
        else let nameCmp = localeCompare (originalName a) (originalName b) in
          if nameCmp \<noteq> 0 then nameCmp
          else localeCompare (photoId a) (photoId b))"

text \<open>
  \<open>Array.prototype.sort(compare)\<close> is a stable sort. The model is the stable insertion
  sort by the comparator: an element goes in front of the first element that it does not
  exceed.
\<close>

fun insertBy :: "('a \<Rightarrow> 'a \<Rightarrow> int) \<Rightarrow> 'a \<Rightarrow> 'a list \<Rightarrow> 'a list" where
  "insertBy cmp x [] = [x]"
| "insertBy cmp x (y # ys) = (if cmp x y \<le> 0 then x # y # ys else y # insertBy cmp x ys)"

definition sortBy :: "('a \<Rightarrow> 'a \<Rightarrow> int) \<Rightarrow> 'a list \<Rightarrow> 'a list" where
  "sortBy cmp xs = foldr (insertBy cmp) xs []"

text \<open>\<open>photos.forEach((photo, index) => indexMap.set(photo.id, index))\<close>\<close>

definition indexMapOf :: "photo list \<Rightarrow> (jsstring \<rightharpoonup> nat)" where
  "indexMapOf ps =
     fold (\<lambda>(p, i) m. m(photoId p \<mapsto> i)) (zip ps [0..<length ps]) Map.empty"

definition buildIndexMap :: "photo list \<Rightarrow> OrderingResult" where
  "buildIndexMap ps = \<lparr>photos = ps, indexMap = indexMapOf ps, groups = None\<rparr>"

text \<open>
  The source's \<open>Map\<close> of groups keeps its keys in the order of first insertion; it is an
  association list. \<open>addToGroup\<close> is the body of the \<open>forEach\<close> that fills it.
\<close>

fun addToGroup :: "'k \<Rightarrow> 'a \<Rightarrow> ('k \<times> 'a list) list \<Rightarrow> ('k \<times> 'a list) list" where
  "addToGroup k x [] = [(k, [x])]"
| "addToGroup k x ((k', xs) # g) =
     (if k = k' then (k', xs @ [x]) # g else (k', xs) # addToGroup k x g)"

definition groupByKey :: "('a \<Rightarrow> 'k) \<Rightarrow> 'a list \<Rightarrow> ('k \<times> 'a list) list" where
  "groupByKey key xs = fold (\<lambda>x g. addToGroup (key x) x g) xs []"

text \<open>
  The block repeated in every grouping function:
  \<open>if (separateVideos && isVideo) { stills, then videos } else { the group as it is }\<close>.
\<close>

definition stillsThenVideos :: "bool \<Rightarrow> (photo \<Rightarrow> bool) option \<Rightarrow> photo list \<Rightarrow> photo list" where
  "stillsThenVideos sv iv ps =
     (case iv of
        Some f \<Rightarrow> if sv then filter (\<lambda>p. \<not> f p) ps @ filter f ps else ps
      | None \<Rightarrow> ps)"

definition dayRoot :: jsstring where
  "dayRoot = js ''Day Root''"

definition compareLabels ::
  "collator \<Rightarrow> jsstring \<times> photo list \<Rightarrow> jsstring \<times> photo list \<Rightarrow> int" where
  "compareLabels localeCompare a b =
     (if fst a = dayRoot then - 1
      else if fst b = dayRoot then 1
      else localeCompare (fst a) (fst b))"

definition groupBySubfolder ::
  "collator \<Rightarrow> photo list \<Rightarrow> int \<Rightarrow> (photo \<Rightarrow> int option \<Rightarrow> jsstring) \<Rightarrow> bool \<Rightarrow> (photo \<Rightarrow> bool) option
     \<Rightarrow> OrderingResult" where
  "groupBySubfolder localeCompare srt selDay getGroup sv iv =
     (let grouped = groupByKey (\<lambda>p. getGroup p (Some selDay)) srt;
          sortedGroups = sortBy (compareLabels localeCompare) grouped;
          (orderedPhotos, groupsWithIndices) =
            fold (\<lambda>(l, g) (acc, gs).
                    (acc @ stillsThenVideos sv iv g,
                     gs @ [\<lparr>label = l, groupPhotos = g, startIndex = length acc\<rparr>]))
                 sortedGroups ([], [])
      in \<lparr>photos = orderedPhotos, indexMap = indexMapOf orderedPhotos,
          groups = Some groupsWithIndices\<rparr>)"

text \<open>\<open>photo.bucket || null\<close>: an empty bucket string counts as no bucket.\<close>

definition bucketKey :: "photo \<Rightarrow> jsstring option" where
  "bucketKey p = (case bucket p of None \<Rightarrow> None | Some b \<Rightarrow> if b = [] then None else Some b)"

definition bucketOrder :: "jsstring option list" where
  "bucketOrder = [Some (js ''A''), Some (js ''B''), Some (js ''C''), Some (js ''D''),
                  Some (js ''E''), Some (js ''M''), Some (js ''X''), None]"

definition groupByBucket :: "photo list \<Rightarrow> bool \<Rightarrow> (photo \<Rightarrow> bool) option \<Rightarrow> OrderingResult" where
  "groupByBucket srt sv iv =
     (let grouped = groupByKey bucketKey srt
      in buildIndexMap
           (concat (map (\<lambda>b. case map_of grouped b of
                                None \<Rightarrow> []
                              | Some g \<Rightarrow> stillsThenVideos sv iv g) bucketOrder)))"

definition compareDays :: "int option \<Rightarrow> int option \<Rightarrow> int" where
  "compareDays a b =
     (case a of None \<Rightarrow> 1
      | Some x \<Rightarrow> (case b of None \<Rightarrow> - 1 | Some y \<Rightarrow> x - y))"

definition groupByDay :: "photo list \<Rightarrow> bool \<Rightarrow> (photo \<Rightarrow> bool) option \<Rightarrow> OrderingResult" where
  "groupByDay srt sv iv =
     (let days = groupByKey day srt;
          sortedDays = sortBy compareDays (map fst days)
      in buildIndexMap
           (concat (map (\<lambda>d. case map_of days d of
                                None \<Rightarrow> []
                              | Some g \<Rightarrow> stillsThenVideos sv iv g) sortedDays)))"

definition sortPhotos :: "collator \<Rightarrow> photo list \<Rightarrow> SortOptions \<Rightarrow> OrderingResult" where
  "sortPhotos localeCompare ps options =
     (let srt = sortBy (comparePhotos localeCompare) ps in
      if groupBy options = Some BySubfolder \<and> selectedDay options \<noteq> None
         \<and> getSubfolderGroup options \<noteq> None
      then groupBySubfolder localeCompare srt (the (selectedDay options)) (the (getSubfolderGroup options))
             (separateVideos options) (isVideo options)
      else if groupBy options = Some ByBucket
      then groupByBucket srt (separateVideos options) (isVideo options)
      else if groupBy options = Some ByDay
      then groupByDay srt (separateVideos options) (isVideo options)
      else buildIndexMap (stillsThenVideos (separateVideos options) (isVideo options) srt))"

text \<open>\<open>indexMap.get(photoId) ?? -1\<close>\<close>

definition getPhotoIndex :: "jsstring \<Rightarrow> (jsstring \<rightharpoonup> nat) \<Rightarrow> int" where
  "getPhotoIndex pid m = (case m pid of Some i \<Rightarrow> int i | None \<Rightarrow> - 1)"

datatype direction = Next | Prev

definition stepOf :: "direction \<Rightarrow> int" where
  "stepOf d = (if d = Next then 1 else - 1)"

text \<open>
  The \<open>while\<close> loop of \<open>navigatePhotos\<close>: it runs while the index is inside the array and
  moves it by the step until the filter accepts a photo.
\<close>

function navLoop :: "(photo \<Rightarrow> bool) \<Rightarrow> photo list \<Rightarrow> direction \<Rightarrow> int \<Rightarrow> photo option" where
  "navLoop f ps d nextIndex =
     (if nextIndex \<ge> 0 \<and> nextIndex < int (length ps)
      then (if f (ps ! nat nextIndex) then Some (ps ! nat nextIndex)
            else navLoop f ps d (nextIndex + stepOf d))
      else None)"
  by pat_completeness auto
termination
  by (relation "measure (\<lambda>(f, ps, d, i).
        if d = Next then nat (int (length ps) - i) else nat (i + 1))")
     (auto simp: stepOf_def)

declare navLoop.simps [simp del]

definition navigatePhotos ::
  "jsstring \<Rightarrow> direction \<Rightarrow> OrderingResult \<Rightarrow> (photo \<Rightarrow> bool) option \<Rightarrow> photo option" where
  "navigatePhotos currentPhotoId d result filt =
     (let currentIndex = getPhotoIndex currentPhotoId (indexMap result) in
      if currentIndex = - 1 then None
      else let nextIndex = currentIndex + stepOf d in
        case filt of
          Some f \<Rightarrow> navLoop f (photos result) d nextIndex
        | None \<Rightarrow>
            if nextIndex \<ge> 0 \<and> nextIndex < int (length (photos result))
            then Some (photos result ! nat nextIndex)
            else None)"

text \<open>The default \<open>options = {}\<close> of \<open>sortPhotos\<close>, and two photos of one folder.\<close>

definition noOptions :: SortOptions where
  "noOptions = \<lparr>groupBy = None, separateVideos = False, selectedDay = None,
                 getSubfolderGroup = None, isVideo = None\<rparr>"

definition examplePhoto :: "string \<Rightarrow> string \<Rightarrow> int \<Rightarrow> string \<Rightarrow> photo" where
  "examplePhoto pid name t path =
     \<lparr>photoId = js pid, originalName = js name, currentName = js name, timestamp = t,
      day = None, bucket = None, sequence = None, favorite = False, rating = 0,
      archived = False, thumbnail = [], mimeType = [], filePath = Some (js path),
      sourceFolder = [], folderHierarchy = [], detectedDay = None, detectedBucket = None,
      isPreOrganized = False, organizationConfidence = NoConfidence,
      subfolderOverride = Undefined\<rparr>"

definition img01 :: photo where
  "img01 = examplePhoto ''p1'' ''IMG_01.jpg'' 1000 ''Day 1/IMG_01.jpg''"

definition img02 :: photo where
  "img02 = examplePhoto ''p2'' ''IMG_02.jpg'' 900 ''Day 1/IMG_02.jpg''"

text \<open>
  Two photos that differ in the id only: the precomposed letter U+00E9, and the letter e
  followed by the combining acute accent.
\<close>

definition precomposed :: photo where
  "precomposed = img01\<lparr>photoId := [233]\<rparr>"

definition decomposed :: photo where
  "decomposed = img01\<lparr>photoId := [101, 769]\<rparr>"

text \<open>Four photos taken one after the other; the second and the fourth share the id.\<close>

definition dupA :: photo where
  "dupA = examplePhoto ''p1'' ''a.jpg'' 1 ''Day 1/a.jpg''"

definition dupB :: photo where
  "dupB = examplePhoto ''p2'' ''b.jpg'' 2 ''Day 1/b.jpg''"

definition dupC :: photo where
  "dupC = examplePhoto ''p3'' ''c.jpg'' 3 ''Day 1/c.jpg''"

definition dupD :: photo where
  "dupD = examplePhoto ''p2'' ''d.jpg'' 4 ''Day 1/d.jpg''"

section \<open>Regular expressions\<close>

text \<open>
  The regular expressions of the source are values of \<open>rx\<close>, built the way the source
  writes them. \<open>rmatch\<close> is a backtracking matcher: from a position and the captures made
  so far it returns every way the expression can match there, in the order in which
  JavaScript tries them (the first alternative first, the longest repetition first), so
  the head of the list is JavaScript's match. Repetition is only ever applied to a class
  of code units in these patterns, and every capturing group is one that always takes
  part in a match, so the captures are the list of the groups' texts in order.
\<close>

datatype rx =
    Chr "nat \<Rightarrow> bool"
  | LitCI jsstring
  | Seq rx rx
  | Alt rx rx
  | Opt rx
  | Rep nat "nat option" "nat \<Rightarrow> bool"
  | Grp rx
  | Eos

text \<open>
  The canonical form of a code unit under the \<open>i\<close> flag (without the \<open>u\<close> flag): its upper
  case. A code unit outside ASCII never becomes an ASCII one, and the patterns contain
  ASCII letters only, so the ASCII part decides every comparison.
\<close>

definition canon :: "nat \<Rightarrow> nat" where
  "canon c = (if 97 \<le> c \<and> c \<le> 122 then c - 32 else c)"

fun rmatch :: "rx \<Rightarrow> jsstring \<times> jsstring list \<Rightarrow> (jsstring \<times> jsstring list) list" where
  "rmatch (Chr P) (s, caps) =
     (case s of [] \<Rightarrow> [] | c # t \<Rightarrow> if P c then [(t, caps)] else [])"
| "rmatch (LitCI w) (s, caps) =
     (if length w \<le> length s \<and> map canon (take (length w) s) = map canon w
      then [(drop (length w) s, caps)] else [])"
| "rmatch (Seq a b) st = concat (map (rmatch b) (rmatch a st))"
| "rmatch (Alt a b) st = rmatch a st @ rmatch b st"
| "rmatch (Opt a) st = rmatch a st @ [st]"
| "rmatch (Rep lo hi P) (s, caps) =
     (let n = length (takeWhile P s);
          m = (case hi of None \<Rightarrow> n | Some h \<Rightarrow> min n h)
      in map (\<lambda>k. (drop k s, caps)) (rev [lo..<Suc m]))"
| "rmatch (Grp a) (s, caps) =
     map (\<lambda>(s', caps'). (s', caps' @ [take (length s - length s') s])) (rmatch a (s, caps))"
| "rmatch Eos (s, caps) = (if s = [] then [(s, caps)] else [])"

text \<open>\<open>s.match(re)\<close> for an expression that starts with \<open>^\<close>: the captures of the first match.\<close>

definition matchStart :: "rx \<Rightarrow> jsstring \<Rightarrow> jsstring list option" where
  "matchStart r s = (case rmatch r (s, []) of [] \<Rightarrow> None | st # _ \<Rightarrow> Some (snd st))"

text \<open>\<open>s.match(re)\<close> for an expression without \<open>^\<close>: the leftmost position that matches.\<close>

fun matchAnywhere :: "rx \<Rightarrow> jsstring \<Rightarrow> jsstring list option" where
  "matchAnywhere r [] = matchStart r []"
| "matchAnywhere r (c # cs) =
     (case matchStart r (c # cs) of
        Some caps \<Rightarrow> Some caps
      | None \<Rightarrow> matchAnywhere r cs)"

definition seqs :: "rx list \<Rightarrow> rx" where
  "seqs rs = foldr Seq (butlast rs) (last rs)"

definition alts :: "rx list \<Rightarrow> rx" where
  "alts rs = foldr Alt (butlast rs) (last rs)"

subsection \<open>The language of a pattern without groups\<close>

text \<open>
  For a pattern with no capture group and no anchor the matcher is described by the set of
  texts the pattern accepts: \<open>inLang r p\<close> says that \<open>r\<close> accepts exactly the text \<open>p\<close>.
\<close>

fun plain :: "rx \<Rightarrow> bool" where
  "plain (Chr P) = True"
| "plain (LitCI w) = True"
| "plain (Seq a b) = (plain a \<and> plain b)"
| "plain (Alt a b) = (plain a \<and> plain b)"
| "plain (Opt a) = plain a"
| "plain (Rep lo hi P) = True"
| "plain (Grp a) = False"
| "plain Eos = False"

fun inLang :: "rx \<Rightarrow> jsstring \<Rightarrow> bool" where
  "inLang (Chr P) p = (\<exists>x. p = [x] \<and> P x)"
| "inLang (LitCI w) p = (map canon p = map canon w)"
| "inLang (Seq a b) p = (\<exists>p1 p2. p = p1 @ p2 \<and> inLang a p1 \<and> inLang b p2)"
| "inLang (Alt a b) p = (inLang a p \<or> inLang b p)"
| "inLang (Opt a) p = (inLang a p \<or> p = [])"
| "inLang (Rep lo hi P) p =
     (list_all P p \<and> lo \<le> length p \<and> (case hi of None \<Rightarrow> True | Some h \<Rightarrow> length p \<le> h))"
| "inLang (Grp a) p = inLang a p"
| "inLang Eos p = (p = [])"

section \<open>Pattern detector (folderDetectionService.ts)\<close>

text \<open>The class \<open>[\s_-]\<close> of the day patterns.\<close>

definition isDaySeparator :: "nat \<Rightarrow> bool" where
  "isDaySeparator c = (isWhiteSpace c \<or> c = 95 \<or> c = 45)"

text \<open>
  \<open>HYPHEN_PATTERN = '[\\s_\\-\<dots>]'\<close>: white space, underscore, hyphen, en dash (U+2013),
  em dash (U+2014), minus sign (U+2212).
\<close>

definition isHyphen :: "nat \<Rightarrow> bool" where
  "isHyphen c = (isWhiteSpace c \<or> c = 95 \<or> c = 45 \<or> c = 8211 \<or> c = 8212 \<or> c = 8722)"

text \<open>The class \<open>[A-MX]\<close> under the \<open>i\<close> flag.\<close>

definition isBucketLetter :: "nat \<Rightarrow> bool" where
  "isBucketLetter c = ((65 \<le> canon c \<and> canon c \<le> 77) \<or> canon c = 88)"

text \<open>The dot matches every code unit but the line terminators.\<close>

definition isLineTerminator :: "nat \<Rightarrow> bool" where
  "isLineTerminator c = (c = 10 \<or> c = 13 \<or> c = 8232 \<or> c = 8233)"

text \<open>\<open>/^(?:day|d)[\s_-]?(\d{1,2})(?:[^\d]|$)/i\<close>\<close>

definition DAY_PREFIX_PATTERN :: rx where
  "DAY_PREFIX_PATTERN =
     seqs [Alt (LitCI (js ''day'')) (LitCI (js ''d'')),
           Opt (Chr isDaySeparator),
           Grp (Rep 1 (Some 2) isDigit),
           Alt (Chr (\<lambda>c. \<not> isDigit c)) Eos]"

text \<open>\<open>/(\d{4})-(\d{2})-(\d{2})/\<close> and \<open>/(\d{4})_(\d{2})_(\d{2})/\<close>\<close>

definition isoDatePattern :: "nat \<Rightarrow> rx" where
  "isoDatePattern sep =
     seqs [Grp (Rep 4 (Some 4) isDigit), Chr (\<lambda>c. c = sep),
           Grp (Rep 2 (Some 2) isDigit), Chr (\<lambda>c. c = sep),
           Grp (Rep 2 (Some 2) isDigit)]"

definition ISO_DATE_PATTERN :: rx where
  "ISO_DATE_PATTERN = isoDatePattern 45"

definition ISO_DATE_PATTERN_UNDERSCORES :: rx where
  "ISO_DATE_PATTERN_UNDERSCORES = isoDatePattern 95"

text \<open>\<open>/^(\d{1,2})[\s_-]/\<close>\<close>

definition NUMERIC_PREFIX_PATTERN :: rx where
  "NUMERIC_PREFIX_PATTERN = seqs [Grp (Rep 1 (Some 2) isDigit), Chr isDaySeparator]"

text \<open>The alternatives of \<open>generateBucketStandardPattern\<close>, in the order of the source.\<close>

definition categories :: "rx list" where
  "categories =
     [LitCI (js ''Establishing''),
      LitCI (js ''People''),
      Seq (LitCI (js ''Culture'')) (Opt (Seq (Opt (Chr isHyphen)) (LitCI (js ''Detail'')))),
      LitCI (js ''Detail''),
      Seq (LitCI (js ''Action'')) (Opt (Seq (Opt (Chr isHyphen)) (LitCI (js ''Moment'')))),
      LitCI (js ''Moment''),
      LitCI (js ''Transition''),
      Alt (seqs [LitCI (js ''Mood''), Opt (Chr isHyphen), LitCI (js ''Food'')])
          (seqs [LitCI (js ''Food''), Opt (Chr isHyphen), LitCI (js ''Mood'')]),
      LitCI (js ''Mood''),
      LitCI (js ''Food''),
      LitCI (js ''Archive'')]"

text \<open>\<open>^([A-MX])(?:HYPHEN+)(categories joined by |)$\<close> with the \<open>i\<close> flag\<close>

definition BUCKET_STANDARD_PATTERN :: rx where
  "BUCKET_STANDARD_PATTERN =
     seqs [Grp (Chr isBucketLetter), Rep 1 None isHyphen, Grp (alts categories), Eos]"

text \<open>\<open>/^([A-MX])$/i\<close>\<close>

definition BUCKET_LETTER_PATTERN :: rx where
  "BUCKET_LETTER_PATTERN = seqs [Grp (Chr isBucketLetter), Eos]"

text \<open>\<open>^([A-MX])(?:HYPHEN+)(.+)$\<close> with the \<open>i\<close> flag\<close>

definition BUCKET_CUSTOM_PATTERN :: rx where
  "BUCKET_CUSTOM_PATTERN =
     seqs [Grp (Chr isBucketLetter), Rep 1 None isHyphen,
           Grp (Rep 1 None (\<lambda>c. \<not> isLineTerminator c)), Eos]"

text \<open>\<open>/^(0[1-6])$/\<close>\<close>

definition BUCKET_NUMERIC_PATTERN :: rx where
  "BUCKET_NUMERIC_PATTERN =
     seqs [Grp (Seq (Chr (\<lambda>c. c = 48)) (Chr (\<lambda>c. 49 \<le> c \<and> c \<le> 54))), Eos]"

definition NUMERIC_TO_BUCKET_MAP :: "jsstring \<rightharpoonup> jsstring" where
  "NUMERIC_TO_BUCKET_MAP =
     map_of [(js ''01'', js ''A''), (js ''02'', js ''B''), (js ''03'', js ''C''),
             (js ''04'', js ''D''), (js ''05'', js ''E''), (js ''06'', js ''M'')]"

text \<open>\<open>match[n]\<close>: the text of the n-th group.\<close>

definition capture :: "jsstring list \<Rightarrow> nat \<Rightarrow> jsstring" where
  "capture caps n = (if 1 \<le> n \<and> n \<le> length caps then caps ! (n - 1) else [])"

text \<open>
  \<open>calculateDayFromDate\<close>. \<open>new Date(s).getTime()\<close> is the parameter \<open>dateOf\<close>: the time in
  milliseconds, \<open>None\<close> for an invalid date (\<open>NaN\<close>). \<open>Math.floor\<close> of the quotient is the
  integer division of HOL, which rounds down.
\<close>

definition calculateDayFromDate ::
  "(jsstring \<Rightarrow> int option) \<Rightarrow> jsstring \<Rightarrow> jsstring option \<Rightarrow> int option" where
  "calculateDayFromDate dateOf dateStr tripStart =
     (let date = dateOf dateStr;
          start = (case tripStart of
                     None \<Rightarrow> date
                   | Some ts \<Rightarrow> if ts = [] then date else dateOf ts)
      in case date of
           None \<Rightarrow> None
         | Some d \<Rightarrow> (case start of
                        None \<Rightarrow> None
                      | Some s \<Rightarrow> Some ((d - s) div (1000 * 60 * 60 * 24) + 1)))"

record 'a detection =
  detected :: 'a
  pattern :: string
  confidenceOf :: confidence

text \<open>The four blocks of \<open>extractDayFromFolderName\<close>; each returns or falls through.\<close>

definition dayPrefixBlock :: "jsstring \<Rightarrow> int detection option" where
  "dayPrefixBlock folderName =
     (case matchStart DAY_PREFIX_PATTERN folderName of
        None \<Rightarrow> None
      | Some m \<Rightarrow>
          (let d = parseInt (capture m 1) in
           if d \<ge> 1 \<and> d \<le> 31
           then Some \<lparr>detected = d, pattern = ''day_prefix'', confidenceOf = High\<rparr>
           else None))"

definition isoDateBlock ::
  "(jsstring \<Rightarrow> int option) \<Rightarrow> rx \<Rightarrow> jsstring \<Rightarrow> jsstring option \<Rightarrow> int detection option" where
  "isoDateBlock dateOf re folderName tripStart =
     (case matchAnywhere re folderName of
        None \<Rightarrow> None
      | Some m \<Rightarrow>
          (let dateStr = capture m 1 @ js ''-'' @ capture m 2 @ js ''-'' @ capture m 3 in
           case calculateDayFromDate dateOf dateStr tripStart of
             None \<Rightarrow> None
           | Some d \<Rightarrow>
               Some \<lparr>detected = d, pattern = ''iso_date'',
                     confidenceOf = (if tripStart \<noteq> None \<and> tripStart \<noteq> Some [] then High
                                     else Medium)\<rparr>))"

definition numericPrefixBlock :: "jsstring \<Rightarrow> int detection option" where
  "numericPrefixBlock folderName =
     (case matchStart NUMERIC_PREFIX_PATTERN folderName of
        None \<Rightarrow> None
      | Some m \<Rightarrow>
          (let d = parseInt (capture m 1) in
           if d \<ge> 1 \<and> d \<le> 31
           then Some \<lparr>detected = d, pattern = ''numeric_prefix'', confidenceOf = Medium\<rparr>
           else None))"

definition extractDayFromFolderName ::
  "(jsstring \<Rightarrow> int option) \<Rightarrow> jsstring \<Rightarrow> jsstring option \<Rightarrow> int detection option" where
  "extractDayFromFolderName dateOf folderName tripStart =
     (case dayPrefixBlock folderName of
        Some r \<Rightarrow> Some r
      | None \<Rightarrow>
     (case isoDateBlock dateOf ISO_DATE_PATTERN folderName tripStart of
        Some r \<Rightarrow> Some r
      | None \<Rightarrow>
     (case isoDateBlock dateOf ISO_DATE_PATTERN_UNDERSCORES folderName tripStart of
        Some r \<Rightarrow> Some r
      | None \<Rightarrow> numericPrefixBlock folderName)))"

definition detectDayNumberFromFolderName ::
  "(jsstring \<Rightarrow> int option) \<Rightarrow> jsstring \<Rightarrow> jsstring option \<Rightarrow> int option" where
  "detectDayNumberFromFolderName dateOf folderName tripStart =
     map_option detected (extractDayFromFolderName dateOf folderName tripStart)"

definition detectBucketFromFolderName :: "jsstring \<Rightarrow> jsstring detection option" where
  "detectBucketFromFolderName folderName =
     (case matchStart BUCKET_STANDARD_PATTERN folderName of
        Some m \<Rightarrow> Some \<lparr>detected = toUpperCase (capture m 1), pattern = ''standard'',
                         confidenceOf = High\<rparr>
      | None \<Rightarrow>
     (case matchStart BUCKET_LETTER_PATTERN folderName of
        Some m \<Rightarrow> Some \<lparr>detected = toUpperCase (capture m 1), pattern = ''letter'',
                         confidenceOf = High\<rparr>
      | None \<Rightarrow>
     (case matchStart BUCKET_CUSTOM_PATTERN folderName of
        Some m \<Rightarrow> Some \<lparr>detected = toUpperCase (capture m 1), pattern = ''custom'',
                         confidenceOf = Medium\<rparr>
      | None \<Rightarrow>
     (case matchStart BUCKET_NUMERIC_PATTERN folderName of
        None \<Rightarrow> None
      | Some m \<Rightarrow>
          (case NUMERIC_TO_BUCKET_MAP (capture m 1) of
             None \<Rightarrow> None
           | Some b \<Rightarrow> if b = [] then None
                       else Some \<lparr>detected = b, pattern = ''numeric'',
                                  confidenceOf = Low\<rparr>)))))"

record pathAnalysis =
  paDetectedDay :: "int option"
  paDetectedBucket :: "jsstring option"
  paIsPreOrganized :: bool
  paConfidence :: confidence
  paPathSegments :: "jsstring list"

text \<open>
  The mutable variables of \<open>analyzePathStructure\<close>: detected day, detected bucket, day
  confidence, bucket confidence.
\<close>

type_synonym detectionVars = "int option \<times> jsstring option \<times> confidence \<times> confidence"

text \<open>The bucket folder after a day folder, when there is one.\<close>

definition bucketAfter :: "jsstring list \<Rightarrow> jsstring option \<times> confidence" where
  "bucketAfter rest =
     (case rest of
        [] \<Rightarrow> (None, NoConfidence)
      | bucketFolder # _ \<Rightarrow>
          (case detectBucketFromFolderName bucketFolder of
             None \<Rightarrow> (None, NoConfidence)
           | Some bd \<Rightarrow> (Some (detected bd), confidenceOf bd)))"

text \<open>The \<open>for\<close> loop of the second branch: the first segment that yields a day ends it.\<close>

fun scanSegments :: "(jsstring \<Rightarrow> int option) \<Rightarrow> jsstring list \<Rightarrow> detectionVars" where
  "scanSegments dateOf [] = (None, None, NoConfidence, NoConfidence)"
| "scanSegments dateOf (segment # rest) =
     (case extractDayFromFolderName dateOf segment None of
        None \<Rightarrow> scanSegments dateOf rest
      | Some dd \<Rightarrow>
          (let (b, bc) = bucketAfter rest
           in (Some (detected dd), b,
               (if confidenceOf dd = High then Medium else Low), bc)))"

text \<open>\<open>pathSegments.findIndex(pred)\<close>, \<open>None\<close> for \<open>-1\<close>.\<close>

fun findIndex :: "('a \<Rightarrow> bool) \<Rightarrow> 'a list \<Rightarrow> nat option" where
  "findIndex P [] = None"
| "findIndex P (x # xs) = (if P x then Some 0 else map_option Suc (findIndex P xs))"

definition analyzePathStructure ::
  "(jsstring \<Rightarrow> int option) \<Rightarrow> jsstring \<Rightarrow> jsstring option \<Rightarrow> pathAnalysis" where
  "analyzePathStructure dateOf path daysFolderOption =
     (let daysFolder = (case daysFolderOption of
                          None \<Rightarrow> js ''01_DAYS''
                        | Some f \<Rightarrow> if f = [] then js ''01_DAYS'' else f);
          rawSegments = splitPath path;
          pathSegments = butlast rawSegments;
          daysIndex = findIndex (\<lambda>segment.
                        let lower = toLowerCase segment in
                        lower = toLowerCase daysFolder \<or> lower = js ''01_days''
                          \<or> lower = js ''days'') pathSegments;
          (detectedDay, detectedBucket, dayConfidence, bucketConfidence) =
            (case daysIndex of
               Some i \<Rightarrow>
                 if i + 1 < length pathSegments
                 then (case extractDayFromFolderName dateOf (pathSegments ! (i + 1)) None of
                         None \<Rightarrow> (None, None, NoConfidence, NoConfidence)
                       | Some dd \<Rightarrow>
                           (let (b, bc) = bucketAfter (drop (i + 2) pathSegments)
                            in (Some (detected dd), b, confidenceOf dd, bc)))
                 else scanSegments dateOf pathSegments
             | None \<Rightarrow> scanSegments dateOf pathSegments);
          preOrganized = (detectedDay \<noteq> None \<and> detectedBucket \<noteq> None);
          overallConfidence =
            (if preOrganized
             then (if dayConfidence = High \<and> bucketConfidence = High then High
                   else if dayConfidence \<noteq> NoConfidence \<and> bucketConfidence \<noteq> NoConfidence
                   then Medium
                   else Low)
             else if detectedDay \<noteq> None then dayConfidence
             else NoConfidence)
      in \<lparr>paDetectedDay = detectedDay, paDetectedBucket = detectedBucket,
          paIsPreOrganized = preOrganized, paConfidence = overallConfidence,
          paPathSegments = pathSegments\<rparr>)"

text \<open>
  A model of \<open>new Date("YYYY-MM-DD").getTime()\<close> for the date-only form, which is read as
  midnight UTC: the days since 1970-01-01 of the civil date, times the milliseconds of a
  day; \<open>None\<close> for a text that is not a calendar date. It is used for concrete examples;
  the detector itself takes the date function as a parameter.
\<close>

definition daysFromCivil :: "int \<Rightarrow> int \<Rightarrow> int \<Rightarrow> int" where
  "daysFromCivil y m d =
     (let y' = (if m \<le> 2 then y - 1 else y);
          era = y' div 400;
          yoe = y' - era * 400;
          doy = (153 * (if m > 2 then m - 3 else m + 9) + 2) div 5 + d - 1;
          doe = yoe * 365 + yoe div 4 - yoe div 100 + doy
      in era * 146097 + doe - 719468)"

definition daysInMonth :: "int \<Rightarrow> int \<Rightarrow> int" where
  "daysInMonth y m =
     (if m = 2 then (if y mod 4 = 0 \<and> (y mod 100 \<noteq> 0 \<or> y mod 400 = 0) then 29 else 28)
      else if m = 4 \<or> m = 6 \<or> m = 9 \<or> m = 11 then 30 else 31)"

definition isoDateOnly :: "jsstring \<Rightarrow> int option" where
  "isoDateOnly s =
     (if length s = 10 \<and> list_all isDigit (take 4 s) \<and> s ! 4 = 45
         \<and> list_all isDigit (take 2 (drop 5 s)) \<and> s ! 7 = 45
         \<and> list_all isDigit (drop 8 s)
      then (let y = parseInt (take 4 s); m = parseInt (take 2 (drop 5 s));
                d = parseInt (drop 8 s)
            in if 1 \<le> m \<and> m \<le> 12 \<and> 1 \<le> d \<and> d \<le> daysInMonth y m
               then Some (daysFromCivil y m d * 86400000)
               else None)
      else None)"

section \<open>Folder name shapes in the words of the specification\<close>




section \<open>The bucket table (constants/meceBuckets.ts)\<close>

text \<open>
  \<open>MECE_BUCKET_KEYS\<close>: the keys of \<open>MECE_BUCKETS\<close>, which the source calls the single source
  of truth for the bucket categories. \<open>isMeceBucketLabel\<close> takes the text before the first
  run of \<open>[\s_-]\<close> of the trimmed label and looks its upper case up among the keys.
\<close>

definition MECE_BUCKET_KEYS :: "jsstring list" where
  "MECE_BUCKET_KEYS = [js ''A'', js ''B'', js ''C'', js ''D'', js ''E'', js ''M'', js ''X'']"

definition isMeceBucketLabel :: "jsstring \<Rightarrow> bool" where
  "isMeceBucketLabel folderLabel =
     (let trimmed = trim folderLabel;
          firstToken = takeWhile (\<lambda>c. \<not> isDaySeparator c) trimmed
      in toUpperCase firstToken \<in> set MECE_BUCKET_KEYS)"

subsection \<open>The shapes of bucket folder names, in the words of the specification\<close>

text \<open>
  \<open>namedCI w s\<close>: the text \<open>s\<close> is the word \<open>w\<close> up to letter case. \<open>compoundCI a b s\<close>: the
  two words with at most one separator between them. \<open>isCategoryName\<close> lists the canonical
  category names. \<open>isMeceLetter\<close>: a letter whose upper case is a key of the bucket table.
  \<open>standardForm\<close>: letter, separators, category name. \<open>customForm\<close>: letter, separators, a
  non-empty suffix without line terminators. \<open>legacyCodes\<close>: the numeric codes and their
  letters.
\<close>

definition namedCI :: "string \<Rightarrow> jsstring \<Rightarrow> bool" where
  "namedCI w s = (map canon s = map canon (js w))"

definition compoundCI :: "string \<Rightarrow> string \<Rightarrow> jsstring \<Rightarrow> bool" where
  "compoundCI a b s =
     (\<exists>p h q. s = p @ h @ q \<and> namedCI a p \<and> (h = [] \<or> (\<exists>c. h = [c] \<and> isHyphen c))
        \<and> namedCI b q)"

definition isCategoryName :: "jsstring \<Rightarrow> bool" where
  "isCategoryName s =
     (namedCI ''Establishing'' s \<or> namedCI ''People'' s
      \<or> namedCI ''Culture'' s \<or> compoundCI ''Culture'' ''Detail'' s \<or> namedCI ''Detail'' s
      \<or> namedCI ''Action'' s \<or> compoundCI ''Action'' ''Moment'' s \<or> namedCI ''Moment'' s
      \<or> namedCI ''Transition'' s
      \<or> compoundCI ''Mood'' ''Food'' s \<or> compoundCI ''Food'' ''Mood'' s
      \<or> namedCI ''Mood'' s \<or> namedCI ''Food'' s \<or> namedCI ''Archive'' s)"

definition isMeceLetter :: "nat \<Rightarrow> bool" where
  "isMeceLetter l = (toUpperCase [l] \<in> set MECE_BUCKET_KEYS)"

definition standardForm :: "jsstring \<Rightarrow> nat \<Rightarrow> bool" where
  "standardForm name l =
     (\<exists>seps cat. name = l # seps @ cat \<and> seps \<noteq> [] \<and> list_all isHyphen seps
        \<and> isCategoryName cat)"

definition customForm :: "jsstring \<Rightarrow> nat \<Rightarrow> bool" where
  "customForm name l =
     (\<exists>seps suffix. name = l # seps @ suffix \<and> seps \<noteq> [] \<and> list_all isHyphen seps
        \<and> suffix \<noteq> [] \<and> list_all (\<lambda>c. \<not> isLineTerminator c) suffix)"

definition legacyCodes :: "(string \<times> string) list" where
  "legacyCodes = [(''01'', ''A''), (''02'', ''B''), (''03'', ''C''),
                  (''04'', ''D''), (''05'', ''E''), (''06'', ''M'')]"

section \<open>Scanning the project folder (projectService.ts)\<close>

text \<open>
  The directory tree behind a \<open>FileSystemDirectoryHandle\<close>, in the order in which
  \<open>entries()\<close> yields it. A file carries what \<open>getFile()\<close> returns: name, time of last
  modification, size and MIME type.
\<close>

record fileInfo =
  fileName :: jsstring
  lastModified :: int
  fileSize :: int
  fileType :: jsstring

datatype fsEntry = FileEntry jsstring fileInfo | DirEntry jsstring "fsEntry list"

record collected =
  entryFile :: fileInfo
  entryPath :: jsstring

definition SUPPORTED_EXT :: "jsstring list" where
  "SUPPORTED_EXT = map js [''jpg'', ''jpeg'', ''png'', ''heic'', ''webp'',
                           ''mp4'', ''mov'', ''webm'', ''avi'', ''mkv'']"

text \<open>\<open>name.split('.').pop()?.toLowerCase() || ''\<close>\<close>

definition extensionOf :: "jsstring \<Rightarrow> jsstring" where
  "extensionOf name =
     (case rev (splitOn (\<lambda>c. c = 46) name) of
        [] \<Rightarrow> []
      | e # _ \<Rightarrow> toLowerCase e)"

definition isSupportedFile :: "jsstring \<Rightarrow> bool" where
  "isSupportedFile name = (extensionOf name \<in> set SUPPORTED_EXT)"

definition shouldSkipFile :: "jsstring \<Rightarrow> bool" where
  "shouldSkipFile name =
     (let lower = toLowerCase name in
      startsWith name (js ''.'') \<or> startsWith name (js ''._'')
        \<or> lower = js ''thumbs.db'' \<or> lower = js ''desktop.ini'')"

text \<open>\<open>prefix ? `${prefix}/${name}` : name\<close>\<close>

definition joinPath :: "jsstring \<Rightarrow> jsstring \<Rightarrow> jsstring" where
  "joinPath prefix name = (if prefix = [] then name else prefix @ js ''/'' @ name)"

text \<open>The body of the loop of \<open>collectFiles\<close> for one entry, and the loop itself.\<close>

fun collectEntry :: "jsstring \<Rightarrow> fsEntry \<Rightarrow> collected list" where
  "collectEntry prefix (DirEntry name children) =
     (if startsWith name (js ''.'') then []
      else concat (map (collectEntry (joinPath prefix name)) children))"
| "collectEntry prefix (FileEntry name file) =
     (if shouldSkipFile name then []
      else if \<not> isSupportedFile name then []
      else [\<lparr>entryFile = file, entryPath = joinPath prefix name\<rparr>])"

definition collectFiles :: "fsEntry list \<Rightarrow> jsstring \<Rightarrow> collected list" where
  "collectFiles entries prefix = concat (map (collectEntry prefix) entries)"

text \<open>\<open>`${originalName}|${timestamp}|${file.size}`\<close>\<close>

definition fileFingerprint :: "collected \<Rightarrow> jsstring" where
  "fileFingerprint entry =
     fileName (entryFile entry) @ js ''|'' @ numberToString (lastModified (entryFile entry))
       @ js ''|'' @ numberToString (fileSize (entryFile entry))"

text \<open>
  What the scan takes from its surroundings: the date function of the detector, the ids
  that \<open>generateId\<close> returns (the n-th photo of a scan gets the n-th id), and the preview
  URL made for a file (empty when making it fails).
\<close>

record env =
  dateOf :: "jsstring \<Rightarrow> int option"
  generateId :: "nat \<Rightarrow> jsstring"
  makeThumbnail :: "collected \<Rightarrow> jsstring"

text \<open>The photo that the loop of \<open>buildPhotosFromHandle\<close> pushes for a file it keeps.\<close>

definition photoOfEntry :: "env \<Rightarrow> nat \<Rightarrow> collected \<Rightarrow> photo" where
  "photoOfEntry e n entry =
     (let file = entryFile entry;
          ext = extensionOf (fileName file);
          isHeic = (ext = js ''heic'' \<or> ext = js ''heif''
                    \<or> jsIncludes (toLowerCase (fileType file)) (js ''heic''));
          pa = analyzePathStructure (dateOf e) (entryPath entry) None;
          segs = splitPath (entryPath entry);
          folderSegments = (if length segs > 1 then butlast segs else []);
          accepted = (paIsPreOrganized pa
                      \<and> (paConfidence pa = High \<or> paConfidence pa = Medium))
      in \<lparr>photoId = generateId e n,
          originalName = fileName file,
          currentName = fileName file,
          timestamp = lastModified file,
          day = (if accepted then paDetectedDay pa else None),
          bucket = (if accepted then paDetectedBucket pa else None),
          sequence = None,
          favorite = False,
          rating = 0,
          archived = False,
          thumbnail = makeThumbnail e entry,
          mimeType = (if fileType file \<noteq> [] then fileType file
                      else if isHeic then js ''image/heic'' else []),
          filePath = Some (entryPath entry),
          sourceFolder = (case rev folderSegments of
                            [] \<Rightarrow> js ''root''
                          | f # _ \<Rightarrow> if f = [] then js ''root'' else f),
          folderHierarchy = folderSegments,
          detectedDay = paDetectedDay pa,
          detectedBucket = paDetectedBucket pa,
          isPreOrganized = paIsPreOrganized pa,
          organizationConfidence = paConfidence pa,
          subfolderOverride = Undefined\<rparr>)"

text \<open>
  The \<open>for\<close> loop of \<open>buildPhotosFromHandle\<close> with its two variables, the photos pushed so
  far and the set of fingerprints seen.
\<close>

fun buildLoop :: "env \<Rightarrow> collected list \<Rightarrow> photo list \<Rightarrow> jsstring set \<Rightarrow> photo list" where
  "buildLoop e [] pushed seenFiles = pushed"
| "buildLoop e (entry # rest) pushed seenFiles =
     (if fileFingerprint entry \<in> seenFiles then buildLoop e rest pushed seenFiles
      else buildLoop e rest (pushed @ [photoOfEntry e (length pushed) entry])
             (insert (fileFingerprint entry) seenFiles))"

definition compareTimestamps :: "photo \<Rightarrow> photo \<Rightarrow> int" where
  "compareTimestamps a b = timestamp a - timestamp b"

definition buildPhotosFromHandle :: "env \<Rightarrow> fsEntry list \<Rightarrow> photo list" where
  "buildPhotosFromHandle e root =
     sortBy compareTimestamps (buildLoop e (collectFiles root []) [] {})"

text \<open>
  The duplicate suppression in the words of the specification: of the files that share a
  key, the one enumerated first is kept and the later ones are discarded.
\<close>

fun firstByKey :: "('a \<Rightarrow> 'k) \<Rightarrow> 'a list \<Rightarrow> 'a list" where
  "firstByKey k [] = []"
| "firstByKey k (x # xs) = x # firstByKey k (filter (\<lambda>y. k y \<noteq> k x) xs)"

section \<open>Reconciliation (getState in projectService.ts)\<close>

record folderStructure =
  daysFolder :: jsstring
  archiveFolder :: jsstring
  favoritesFolder :: jsstring
  metaFolder :: jsstring

record ProjectSettings =
  autoDay :: bool
  folders :: "folderStructure option"

definition DEFAULT_SETTINGS :: ProjectSettings where
  "DEFAULT_SETTINGS =
     \<lparr>autoDay = True,
      folders = Some \<lparr>daysFolder = js ''01_DAYS'', archiveFolder = js ''98_ARCHIVE'',
                       favoritesFolder = js ''FAV'', metaFolder = js ''_meta''\<rparr>\<rparr>"

text \<open>One element of the \<open>edits\<close> array that \<open>serializeState\<close> writes.\<close>

record edit =
  editFilePath :: "jsstring option"
  editDay :: "int option"
  editBucket :: "jsstring option"
  editSequence :: "int option"
  editFavorite :: bool
  editRating :: int
  editArchived :: bool
  editCurrentName :: jsstring
  editSourceFolder :: jsstring
  editFolderHierarchy :: "jsstring list"
  editDetectedDay :: "int option"
  editDetectedBucket :: "jsstring option"
  editIsPreOrganized :: bool
  editOrganizationConfidence :: confidence
  editSubfolderOverride :: subfolder_override

text \<open>
  The parsed JSON kept in local storage under the key of a project; every part may be
  missing (\<open>raw ? JSON.parse(raw) : {}\<close> gives the value with all parts missing).
\<close>

record stored =
  storedProjectName :: "jsstring option"
  storedRootPath :: "jsstring option"
  storedSettings :: "ProjectSettings option"
  storedDayLabels :: "(jsstring \<times> jsstring) list option"
  storedDayContainers :: "jsstring list option"
  storedLastModified :: "int option"
  storedEdits :: "edit list option"

definition emptyStored :: stored where
  "emptyStored = \<lparr>storedProjectName = None, storedRootPath = None, storedSettings = None,
                   storedDayLabels = None, storedDayContainers = None,
                   storedLastModified = None, storedEdits = None\<rparr>"

record ProjectState =
  projectName :: jsstring
  rootPath :: jsstring
  statePhotos :: "photo list"
  settings :: ProjectSettings
  dayLabels :: "(jsstring \<times> jsstring) list"
  dayContainers :: "jsstring list"
  lastModifiedAt :: "int option"

text \<open>
  \<open>cachedEdits.set(edit.filePath, edit)\<close> for every edit with a non-empty path: a later
  edit of the same path replaces an earlier one.
\<close>

definition cachedEditsOf :: "edit list \<Rightarrow> (jsstring \<rightharpoonup> edit)" where
  "cachedEditsOf edits =
     fold (\<lambda>ed m. case editFilePath ed of
                     None \<Rightarrow> m
                   | Some p \<Rightarrow> if p = [] then m else m(p \<mapsto> ed)) edits Map.empty"

text \<open>The object spread \<open>{ ...photo, day: cached.day, bucket: cached.bucket || photo.bucket, ... }\<close>\<close>

definition overlayCached :: "photo \<Rightarrow> edit \<Rightarrow> photo" where
  "overlayCached p cached =
     p\<lparr>day := editDay cached,
       bucket := (case editBucket cached of
                    None \<Rightarrow> bucket p
                  | Some b \<Rightarrow> if b = [] then bucket p else Some b),
       sequence := editSequence cached,
       favorite := editFavorite cached,
       rating := editRating cached,
       archived := editArchived cached,
       currentName := editCurrentName cached,
       subfolderOverride := editSubfolderOverride cached\<rparr>"

text \<open>The callback of \<open>freshPhotos.map\<close>.\<close>

definition mergePhoto :: "(jsstring \<rightharpoonup> edit) \<Rightarrow> photo \<Rightarrow> photo" where
  "mergePhoto cachedEdits p =
     (case (case filePath p of
              None \<Rightarrow> None
            | Some fp \<Rightarrow> if fp = [] then None else cachedEdits fp) of
        Some cached \<Rightarrow> overlayCached p cached
      | None \<Rightarrow> p)"

definition applyCachedEdits :: "edit list option \<Rightarrow> photo list \<Rightarrow> photo list" where
  "applyCachedEdits edits freshPhotos =
     (case edits of
        None \<Rightarrow> freshPhotos
      | Some es \<Rightarrow> map (mergePhoto (cachedEditsOf es)) freshPhotos)"

definition isArchiveFolderSegment :: "jsstring \<Rightarrow> jsstring \<Rightarrow> bool" where
  "isArchiveFolderSegment segment archiveName =
     (let normalized = toLowerCase segment;
          simplified = trim (replaceRuns (\<lambda>c. \<not> ((97 \<le> c \<and> c \<le> 122) \<or> isDigit c))
                               (js '' '') normalized);
          explicit = toLowerCase archiveName
      in if explicit \<noteq> [] \<and> normalized = explicit then True
         else if normalized = js ''archive'' \<or> normalized = js ''archives'' then True
         else if endsWith normalized (js ''_archive'') \<or> endsWith normalized (js ''-archive'')
         then True
         else if jsIncludes normalized (js ''archive'') \<or> jsIncludes simplified (js ''archive'')
         then True
         else False)"

definition applyArchiveFolder :: "photo list \<Rightarrow> jsstring \<Rightarrow> photo list" where
  "applyArchiveFolder ps archiveName =
     (if archiveName = [] then ps
      else map (\<lambda>p. case filePath p of
                       None \<Rightarrow> p
                     | Some fp \<Rightarrow>
                         if fp = [] then p
                         else if \<exists>segment \<in> set (splitPath fp).
                                   isArchiveFolderSegment segment archiveName
                         then p\<lparr>archived := True, bucket := Some (js ''X'')\<rparr>
                         else p) ps)"

text \<open>
  \<open>settings.folderStructure?.archiveFolder || DEFAULT_SETTINGS.folderStructure.archiveFolder\<close>
\<close>

definition archiveFolderOf :: "ProjectSettings \<Rightarrow> jsstring" where
  "archiveFolderOf s =
     (case folders s of
        None \<Rightarrow> js ''98_ARCHIVE''
      | Some f \<Rightarrow> if archiveFolder f = [] then js ''98_ARCHIVE'' else archiveFolder f)"

text \<open>
  The handle of a project folder as IndexedDB keeps it: its name, whether it has
  \<open>requestPermission\<close>, what that call does, and the tree it gives access to.
\<close>

datatype permission = Granted | Denied | Prompt | PermissionThrows

record dirHandle =
  handleName :: jsstring
  hasRequestPermission :: bool
  requestPermission :: permission
  handleEntries :: "fsEntry list"

datatype dbStatus = DbOpens | DbUnavailable | DbTimesOut | DbBlocked | DbFails

text \<open>The state outside the function: the handle database and local storage.\<close>

record world =
  indexedDB :: dbStatus
  handleStore :: "jsstring \<rightharpoonup> dirHandle"
  localStorage :: "jsstring \<rightharpoonup> stored"

text \<open>The errors that \<open>getState\<close> throws, one per message.\<close>

datatype error =
    IndexedDBNotAvailable
  | IndexedDBOpenTimedOut
  | IndexedDBOpenBlocked
  | IndexedDBRequestFailed
  | FolderAccessNotAvailable
  | FileSystemAccessNotSupported
  | FolderAccessExpired
  | FolderAccessNotGranted
  | FolderAccessNoLongerAvailable

definition openHandleDb :: "world \<Rightarrow> error + unit" where
  "openHandleDb w =
     (case indexedDB w of
        DbOpens \<Rightarrow> Inr ()
      | DbUnavailable \<Rightarrow> Inl IndexedDBNotAvailable
      | DbTimesOut \<Rightarrow> Inl IndexedDBOpenTimedOut
      | DbBlocked \<Rightarrow> Inl IndexedDBOpenBlocked
      | DbFails \<Rightarrow> Inl IndexedDBRequestFailed)"

definition STATE_PREFIX :: jsstring where
  "STATE_PREFIX = js ''narrative:projectState:''"

text \<open>
  \<open>getState\<close>, from the check of the fresh photos on: the part that merges the fresh scan
  with the stored state.
\<close>

definition reconcile :: "jsstring \<Rightarrow> stored \<Rightarrow> photo list \<Rightarrow> error + ProjectState" where
  "reconcile name st freshPhotos =
     (if length freshPhotos = 0 then Inl FolderAccessNoLongerAvailable
      else
        let ps = applyCachedEdits (storedEdits st) freshPhotos;
            sets = (case storedSettings st of None \<Rightarrow> DEFAULT_SETTINGS | Some s \<Rightarrow> s);
            archivedPhotos = applyArchiveFolder ps (archiveFolderOf sets)
        in Inr \<lparr>projectName = (case storedProjectName st of
                                  None \<Rightarrow> name
                                | Some n \<Rightarrow> if n = [] then name else n),
                 rootPath = (case storedRootPath st of
                               None \<Rightarrow> name
                             | Some r \<Rightarrow> if r = [] then name else r),
                 statePhotos = archivedPhotos,
                 settings = sets,
                 dayLabels = (case storedDayLabels st of None \<Rightarrow> [] | Some l \<Rightarrow> l),
                 dayContainers = (case storedDayContainers st of None \<Rightarrow> [] | Some c \<Rightarrow> c),
                 lastModifiedAt = storedLastModified st\<rparr>)"

text \<open>
  \<open>getState\<close>: the result, an error or the project state, together with the state of the
  handle database and of local storage afterwards.
\<close>

definition getState :: "env \<Rightarrow> world \<Rightarrow> jsstring \<Rightarrow> (error + ProjectState) \<times> world" where
  "getState e w projectId =
     (case openHandleDb w of
        Inl err \<Rightarrow> (Inl err, w)
      | Inr _ \<Rightarrow>
     (case handleStore w projectId of
        None \<Rightarrow> (Inl FolderAccessNotAvailable, w)
      | Some h \<Rightarrow>
          if \<not> hasRequestPermission h then (Inl FileSystemAccessNotSupported, w)
          else if requestPermission h = PermissionThrows
          then (Inl FolderAccessExpired, w\<lparr>handleStore := (handleStore w)(projectId := None)\<rparr>)
          else if requestPermission h \<noteq> Granted then (Inl FolderAccessNotGranted, w)
          else
            let st = (case localStorage w (STATE_PREFIX @ projectId) of
                        None \<Rightarrow> emptyStored
                      | Some s \<Rightarrow> s);
                freshPhotos = buildPhotosFromHandle e (handleEntries h)
            in (reconcile (handleName h) st freshPhotos, w)))"

section \<open>Example projects\<close>

text \<open>A scan environment, a folder handle, stored edits and small folder trees.\<close>

definition exampleEnv :: env where
  "exampleEnv = \<lparr>dateOf = isoDateOnly,
                  generateId = (\<lambda>n. js ''id-'' @ natToString n),
                  makeThumbnail = (\<lambda>c. js ''blob:'' @ entryPath c)\<rparr>"

definition jpeg :: "string \<Rightarrow> int \<Rightarrow> int \<Rightarrow> fsEntry" where
  "jpeg name t n =
     FileEntry (js name) \<lparr>fileName = js name, lastModified = t, fileSize = n,
                          fileType = js ''image/jpeg''\<rparr>"

definition exampleHandle :: "fsEntry list \<Rightarrow> dirHandle" where
  "exampleHandle tree = \<lparr>handleName = js ''Trip'', hasRequestPermission = True,
                          requestPermission = Granted, handleEntries = tree\<rparr>"

definition exampleEdit :: "string \<Rightarrow> jsstring option \<Rightarrow> bool \<Rightarrow> bool \<Rightarrow> edit" where
  "exampleEdit path b fav arch =
     \<lparr>editFilePath = Some (js path), editDay = Some 1, editBucket = b, editSequence = None,
      editFavorite = fav, editRating = 0, editArchived = arch,
      editCurrentName = js ''renamed.jpg'', editSourceFolder = [], editFolderHierarchy = [],
      editDetectedDay = None, editDetectedBucket = None, editIsPreOrganized = False,
      editOrganizationConfidence = NoConfidence, editSubfolderOverride = Undefined\<rparr>"

definition exampleWorld :: "fsEntry list \<Rightarrow> edit list \<Rightarrow> world" where
  "exampleWorld tree edits =
     \<lparr>indexedDB = DbOpens,
      handleStore = [js ''proj'' \<mapsto> exampleHandle tree],
      localStorage = [STATE_PREFIX @ js ''proj'' \<mapsto> emptyStored\<lparr>storedEdits := Some edits\<rparr>]\<rparr>"



definition clearedEdit :: edit where
  "clearedEdit = exampleEdit ''Day 1/IMG_01.jpg'' None True False"

definition keptEdit :: edit where
  "keptEdit = exampleEdit ''Day 1/IMG_01.jpg'' (Some (js ''B'')) True False"

definition detectedA :: photo where
  "detectedA = img01\<lparr>day := Some 1, bucket := Some (js ''A''), detectedDay := Some 1,
                       detectedBucket := Some (js ''A'')\<rparr>"

definition duplicateTree :: "fsEntry list" where
  "duplicateTree =
     [DirEntry (js ''Day1'') [jpeg ''IMG_0001.jpg'' 1000 3],
      DirEntry (js ''Day2'') [jpeg ''IMG_0001.jpg'' 1000 3, jpeg ''IMG_0002.jpg'' 2000 4]]"

definition caseTree :: "fsEntry list" where
  "caseTree =
     [DirEntry (js ''a'') [jpeg ''IMG.JPG'' 1000 3],
      DirEntry (js ''b'') [jpeg ''img.jpg'' 1000 3]]"

definition dayOnlyTree :: "fsEntry list" where
  "dayOnlyTree = [DirEntry (js ''01_DAYS'') [DirEntry (js ''Day 1'') [jpeg ''IMG_01.jpg'' 1000 10]]]"

definition bucketTree :: "fsEntry list" where
  "bucketTree =
     [DirEntry (js ''01_DAYS'')
        [DirEntry (js ''Day 1'')
           [DirEntry (js ''A_Establishing'') [jpeg ''IMG_01.jpg'' 1000 10]]]]"

definition jpegEntry :: "string \<Rightarrow> string \<Rightarrow> int \<Rightarrow> int \<Rightarrow> collected" where
  "jpegEntry path name t n =
     \<lparr>entryFile = \<lparr>fileName = js name, lastModified = t, fileSize = n,
                     fileType = js ''image/jpeg''\<rparr>,
      entryPath = js path\<rparr>"

text \<open>A cached edit with no bucket for the photo of \<open>bucketTree\<close>.\<close>

definition clearedScanEdit :: edit where
  "clearedScanEdit = exampleEdit ''01_DAYS/Day 1/A_Establishing/IMG_01.jpg'' None True False"

section \<open>Ordering engine: proofs\<close>

subsection \<open>Consistent comparators\<close>

lemma cc_anti: "consistentComparator cmp \<Longrightarrow> (cmp a b < 0) = (cmp b a > 0)"
  unfolding consistentComparator_def by blast

lemma cc_trans: "consistentComparator cmp \<Longrightarrow> cmp a b \<le> 0 \<Longrightarrow> cmp b c \<le> 0 \<Longrightarrow> cmp a c \<le> 0"
  unfolding consistentComparator_def by blast

lemma cc_refl: "consistentComparator cmp \<Longrightarrow> cmp a a = 0"
  using cc_anti[of cmp a a] by auto

lemma cc_zero_sym: "consistentComparator cmp \<Longrightarrow> (cmp a b = 0) = (cmp b a = 0)"
  using cc_anti[of cmp a b] cc_anti[of cmp b a] by auto

lemma cc_le_iff: "consistentComparator cmp \<Longrightarrow> (cmp a b \<le> 0) = (cmp b a \<ge> 0)"
  using cc_anti[of cmp a b] cc_anti[of cmp b a] by auto

lemma cc_trans_lt_le:
  assumes "consistentComparator cmp" "cmp a b < 0" "cmp b c \<le> 0"
  shows "cmp a c < 0"
proof (rule ccontr)
  assume "\<not> cmp a c < 0"
  then have "cmp c a \<le> 0" using cc_le_iff[OF assms(1), of c a] by simp
  with assms(3) have "cmp b a \<le> 0" using cc_trans[OF assms(1)] by blast
  with assms(2) show False using cc_anti[OF assms(1), of a b] by simp
qed

lemma cc_trans_le_lt:
  assumes "consistentComparator cmp" "cmp a b \<le> 0" "cmp b c < 0"
  shows "cmp a c < 0"
proof (rule ccontr)
  assume "\<not> cmp a c < 0"
  then have "cmp c a \<le> 0" using cc_le_iff[OF assms(1), of c a] by simp
  with assms(2) have "cmp c b \<le> 0" using cc_trans[OF assms(1)] by blast
  with assms(3) show False using cc_anti[OF assms(1), of b c] by simp
qed

lemma cc_trans_eq:
  assumes "consistentComparator cmp" "cmp a b = 0" "cmp b c = 0"
  shows "cmp a c = 0"
proof -
  have "cmp a c \<le> 0" using assms cc_trans[OF assms(1), of a b c] by simp
  moreover have "cmp c b = 0" "cmp b a = 0"
    using assms cc_zero_sym[OF assms(1)] by blast+
  then have "cmp c a \<le> 0"
    using cc_trans[OF assms(1), of c b a] by simp
  ultimately show ?thesis using cc_le_iff[OF assms(1), of c a] by simp
qed

lemma cc_diff: "consistentComparator (\<lambda>a b. (f a :: int) - f b)"
  unfolding consistentComparator_def by auto

lemma cc_on: "consistentComparator cmp \<Longrightarrow> consistentComparator (\<lambda>a b. cmp (f a) (f b))"
  unfolding consistentComparator_def by blast

lemma cc_lex:
  assumes 1: "consistentComparator c1" and 2: "consistentComparator c2"
  shows "consistentComparator (\<lambda>a b. if c1 a b \<noteq> 0 then c1 a b else c2 a b)"
  unfolding consistentComparator_def
proof (intro conjI allI impI)
  fix a b
  show "((if c1 a b \<noteq> 0 then c1 a b else c2 a b) < 0)
        = (0 < (if c1 b a \<noteq> 0 then c1 b a else c2 b a))"
    using cc_anti[OF 1, of a b] cc_anti[OF 1, of b a] cc_anti[OF 2, of a b]
    by (cases "c1 a b = 0") auto
next
  fix a b c
  assume h: "(if c1 a b \<noteq> 0 then c1 a b else c2 a b) \<le> 0
           \<and> (if c1 b c \<noteq> 0 then c1 b c else c2 b c) \<le> 0"
  then have ab: "c1 a b < 0 \<or> (c1 a b = 0 \<and> c2 a b \<le> 0)"
    and bc: "c1 b c < 0 \<or> (c1 b c = 0 \<and> c2 b c \<le> 0)"
    by (auto split: if_splits)
  have "c1 a c < 0 \<or> (c1 a c = 0 \<and> c2 a c \<le> 0)"
  proof (cases "c1 a b < 0")
    case True
    with bc have "c1 a c < 0" using cc_trans_lt_le[OF 1, of a b c] by auto
    then show ?thesis by simp
  next
    case False
    with ab have e: "c1 a b = 0" "c2 a b \<le> 0" by auto
    show ?thesis
    proof (cases "c1 b c < 0")
      case True
      with e have "c1 a c < 0" using cc_trans_le_lt[OF 1, of a b c] by auto
      then show ?thesis by simp
    next
      case False
      with bc have f: "c1 b c = 0" "c2 b c \<le> 0" by auto
      from e f have "c1 a c = 0" using cc_trans_eq[OF 1] by blast
      moreover from e f have "c2 a c \<le> 0" using cc_trans[OF 2] by blast
      ultimately show ?thesis by simp
    qed
  qed
  then show "(if c1 a c \<noteq> 0 then c1 a c else c2 a c) \<le> 0" by auto
qed

lemma comparePhotos_lex:
  "comparePhotos lc =
     (\<lambda>a b. if timestamp a - timestamp b \<noteq> 0 then timestamp a - timestamp b
            else if lc (pathKey a) (pathKey b) \<noteq> 0 then lc (pathKey a) (pathKey b)
            else if lc (originalName a) (originalName b) \<noteq> 0
                 then lc (originalName a) (originalName b)
            else lc (photoId a) (photoId b))"
  by (intro ext) (simp add: comparePhotos_def Let_def)

lemma cc_comparePhotos:
  assumes "consistentComparator lc"
  shows "consistentComparator (comparePhotos lc)"
proof -
  have t: "consistentComparator (\<lambda>a b. timestamp a - timestamp (b :: photo))"
    by (rule cc_diff)
  have p: "consistentComparator (\<lambda>a b. lc (pathKey a) (pathKey b))"
    using cc_on[OF assms, of pathKey] .
  have n: "consistentComparator (\<lambda>a b :: photo. lc (originalName a) (originalName b))"
    using cc_on[OF assms, of originalName] .
  have i: "consistentComparator (\<lambda>a b :: photo. lc (photoId a) (photoId b))"
    using cc_on[OF assms, of photoId] .
  show ?thesis
    unfolding comparePhotos_lex by (rule cc_lex[OF t cc_lex[OF p cc_lex[OF n i]]])
qed

lemma comparePhotos_zero:
  "(comparePhotos lc a b = 0)
     = (timestamp a = timestamp b \<and> lc (pathKey a) (pathKey b) = 0
        \<and> lc (originalName a) (originalName b) = 0 \<and> lc (photoId a) (photoId b) = 0)"
  by (auto simp: comparePhotos_def Let_def)

lemma codeUnitCompare_le: "(codeUnitCompare a b \<le> 0) = (a \<le> b)"
  by (auto simp: codeUnitCompare_def)

lemma codeUnitCompare_less: "(codeUnitCompare a b < 0) = (a < b)"
  by (auto simp: codeUnitCompare_def)

lemma codeUnitCompare_greater: "(codeUnitCompare a b > 0) = (b < a)"
  by (auto simp: codeUnitCompare_def)

lemma cc_codeUnitCompare: "consistentComparator codeUnitCompare"
  unfolding consistentComparator_def
  by (simp only: codeUnitCompare_le codeUnitCompare_less codeUnitCompare_greater) auto

lemma cc_canonicalCompare: "consistentComparator canonicalCompare"
proof -
  have "canonicalCompare = (\<lambda>a b. codeUnitCompare (composeAcute a) (composeAcute b))"
    by (intro ext) (simp add: canonicalCompare_def)
  then show ?thesis using cc_on[OF cc_codeUnitCompare, of composeAcute] by (simp only:)
qed

subsection \<open>Sorting by a consistent comparator is sorting by rank\<close>

lemma rank_subset:
  assumes "consistentComparator cmp" "cmp a b \<le> 0"
  shows "{y \<in> A. cmp y a < 0} \<subseteq> {y \<in> A. cmp y b < 0}"
  using cc_trans_lt_le[OF assms(1) _ assms(2)] by blast

lemma rank_le:
  assumes cc: "consistentComparator cmp" and fin: "finite A" and a: "a \<in> A" and b: "b \<in> A"
  shows "(card {y \<in> A. cmp y a < 0} \<le> card {y \<in> A. cmp y b < 0}) = (cmp a b \<le> 0)"
proof
  assume "cmp a b \<le> 0"
  from rank_subset[OF cc this] fin
  show "card {y \<in> A. cmp y a < 0} \<le> card {y \<in> A. cmp y b < 0}"
    by (intro card_mono) auto
next
  assume le: "card {y \<in> A. cmp y a < 0} \<le> card {y \<in> A. cmp y b < 0}"
  show "cmp a b \<le> 0"
  proof (rule ccontr)
    assume "\<not> cmp a b \<le> 0"
    then have ba: "cmp b a < 0" using cc_anti[OF cc, of b a] by simp
    then have sub: "{y \<in> A. cmp y b < 0} \<subseteq> {y \<in> A. cmp y a < 0}"
      using rank_subset[OF cc, of b a A] by simp
    have "b \<in> {y \<in> A. cmp y a < 0}" using b ba by simp
    moreover have "b \<notin> {y \<in> A. cmp y b < 0}" using cc_refl[OF cc, of b] by simp
    ultimately have "{y \<in> A. cmp y b < 0} \<subset> {y \<in> A. cmp y a < 0}" using sub by blast
    then have "card {y \<in> A. cmp y b < 0} < card {y \<in> A. cmp y a < 0}"
      using fin by (intro psubset_card_mono) auto
    with le show False by simp
  qed
qed

lemma insertBy_rank:
  assumes "consistentComparator cmp" "finite A" "x \<in> A" "set ys \<subseteq> A"
  shows "insertBy cmp x ys = insort_key (\<lambda>x. card {y \<in> A. cmp y x < 0}) x ys"
  using assms(4)
  by (induction ys) (simp_all add: rank_le[OF assms(1,2,3)])

lemma sortBy_rank:
  assumes "consistentComparator cmp" "finite A" "set xs \<subseteq> A"
  shows "sortBy cmp xs = sort_key (\<lambda>x. card {y \<in> A. cmp y x < 0}) xs"
  using assms(3)
proof (induction xs)
  case Nil show ?case by (simp add: sortBy_def)
next
  case (Cons x xs)
  then have ih: "sortBy cmp xs = sort_key (\<lambda>x. card {y \<in> A. cmp y x < 0}) xs" by simp
  have "sortBy cmp (x # xs) = insertBy cmp x (sortBy cmp xs)" by (simp add: sortBy_def)
  also have "\<dots> = insort_key (\<lambda>x. card {y \<in> A. cmp y x < 0}) x (sortBy cmp xs)"
    using Cons.prems by (intro insertBy_rank[OF assms(1,2)]) (simp_all add: ih)
  finally show ?case by (simp add: ih sort_key_def)
qed

lemma filter_stills_videos:
  "filter (\<lambda>p. \<not> f p) (filter (\<lambda>p. \<not> f p) S @ filter f S) = filter (\<lambda>p. \<not> f p) S"
  "filter f (filter (\<lambda>p. \<not> f p) S @ filter f S) = filter f S"
  by (induction S) auto

lemma sort_stillsThenVideos:
  assumes "sorted (map k S)"
  shows "stillsThenVideos sv iv (sort_key k (stillsThenVideos sv iv S)) = stillsThenVideos sv iv S"
proof (cases "sv \<and> iv \<noteq> None")
  case False
  then have "stillsThenVideos sv iv xs = xs" for xs
    by (auto simp: stillsThenVideos_def split: option.splits)
  then show ?thesis using assms by (simp add: sort_key_id_if_sorted)
next
  case True
  then obtain f where f: "iv = Some f" "sv" by auto
  let ?out = "filter (\<lambda>p. \<not> f p) S @ filter f S"
  have 1: "filter (\<lambda>p. \<not> f p) (sort_key k ?out) = filter (\<lambda>p. \<not> f p) S"
    using assms
    by (simp only: filter_sort filter_stills_videos) (simp add: sort_key_id_if_sorted sorted_filter)
  have 2: "filter f (sort_key k ?out) = filter f S"
    using assms
    by (simp only: filter_sort filter_stills_videos) (simp add: sort_key_id_if_sorted sorted_filter)
  from 1 2 f show ?thesis by (simp add: stillsThenVideos_def)
qed

lemma set_stillsThenVideos: "set (stillsThenVideos sv iv ps) = set ps"
  by (auto simp: stillsThenVideos_def split: option.splits)

lemma resort_stillsThenVideos:
  assumes "consistentComparator cmp"
  shows "stillsThenVideos sv iv (sortBy cmp (stillsThenVideos sv iv (sortBy cmp ps)))
         = stillsThenVideos sv iv (sortBy cmp ps)"
proof -
  let ?k = "\<lambda>x. card {y \<in> set ps. cmp y x < 0}"
  have s: "sortBy cmp ps = sort_key ?k ps"
    using assms by (intro sortBy_rank) simp_all
  have "set (stillsThenVideos sv iv (sort_key ?k ps)) \<subseteq> set ps"
    by (simp add: set_stillsThenVideos)
  then have t: "sortBy cmp (stillsThenVideos sv iv (sort_key ?k ps))
             = sort_key ?k (stillsThenVideos sv iv (sort_key ?k ps))"
    using assms by (intro sortBy_rank) simp_all
  show ?thesis
    unfolding s t by (rule sort_stillsThenVideos) simp
qed

subsection \<open>Sorting keeps the photos\<close>

lemma mset_insertBy: "mset (insertBy cmp x ys) = add_mset x (mset ys)"
  by (induction ys) simp_all

lemma mset_sortBy: "mset (sortBy cmp xs) = mset xs"
  by (induction xs) (simp_all add: sortBy_def mset_insertBy)

lemma mset_stillsThenVideos: "mset (stillsThenVideos sv iv ps) = mset ps"
  by (auto simp: stillsThenVideos_def split: option.splits)

subsection \<open>Index map and navigation loop\<close>

lemma indexMapOf_snoc: "indexMapOf (qs @ [q]) = (indexMapOf qs)(photoId q \<mapsto> length qs)"
  by (simp add: indexMapOf_def)

lemma indexMapOf_Nil: "indexMapOf [] = Map.empty"
  by (simp add: indexMapOf_def)

lemma indexMapOf_SomeD:
  "indexMapOf qs pid = Some i \<Longrightarrow> i < length qs \<and> photoId (qs ! i) = pid"
proof (induction qs arbitrary: i rule: rev_induct)
  case Nil then show ?case by (simp add: indexMapOf_Nil)
next
  case (snoc q qs)
  then show ?case
    by (auto simp: indexMapOf_snoc nth_append less_Suc_eq split: if_splits)
qed

lemma indexMapOf_distinct:
  "distinct (map photoId qs) \<Longrightarrow> i < length qs \<Longrightarrow> indexMapOf qs (photoId (qs ! i)) = Some i"
proof (induction qs arbitrary: i rule: rev_induct)
  case Nil then show ?case by simp
next
  case (snoc q qs)
  show ?case
  proof (cases "i < length qs")
    case True
    then have "photoId (qs ! i) \<in> photoId ` set qs" by (intro imageI nth_mem)
    moreover have "photoId q \<notin> photoId ` set qs" using snoc.prems(1) by simp
    ultimately have "photoId (qs ! i) \<noteq> photoId q" by metis
    with True snoc show ?thesis by (simp add: indexMapOf_snoc nth_append)
  next
    case False
    with snoc.prems have "i = length qs" by simp
    then show ?thesis by (simp add: indexMapOf_snoc)
  qed
qed

lemma navLoop_next:
  "0 \<le> j \<Longrightarrow> navLoop f ps Next j = List.find f (drop (nat j) ps)"
proof (induction f ps Next j rule: navLoop.induct)
  case (1 f ps j)
  show ?case
  proof (cases "j < int (length ps)")
    case False
    with 1 show ?thesis by (simp add: navLoop.simps[of f ps Next j])
  next
    case True
    then have lt: "nat j < length ps" using 1(2) by simp
    then have dr: "drop (nat j) ps = ps ! nat j # drop (nat (j + 1)) ps"
      using 1(2) by (simp add: Cons_nth_drop_Suc nat_add_distrib)
    show ?thesis
    proof (cases "f (ps ! nat j)")
      case True
      with \<open>j < int (length ps)\<close> 1(2) dr show ?thesis
        by (simp add: navLoop.simps[of f ps Next j])
    next
      case False
      have "navLoop f ps Next (j + stepOf Next) = List.find f (drop (nat (j + stepOf Next)) ps)"
        using 1(1)[OF _ False] True 1(2) by (simp add: stepOf_def)
      with False True 1(2) dr show ?thesis
        by (simp add: navLoop.simps[of f ps Next j] stepOf_def)
    qed
  qed
qed

lemma navLoop_prev:
  "j < int (length ps) \<Longrightarrow> navLoop f ps Prev j = List.find f (rev (take (nat (j + 1)) ps))"
proof (induction f ps Prev j rule: navLoop.induct)
  case (1 f ps j)
  show ?case
  proof (cases "0 \<le> j")
    case False
    with 1 show ?thesis by (simp add: navLoop.simps[of f ps Prev j])
  next
    case True
    then have lt: "nat j < length ps" using 1(2) by simp
    have tk: "take (nat (j + 1)) ps = take (nat j) ps @ [ps ! nat j]"
      using True lt by (simp add: nat_add_distrib take_Suc_conv_app_nth)
    show ?thesis
    proof (cases "f (ps ! nat j)")
      case True
      with \<open>0 \<le> j\<close> 1(2) tk show ?thesis
        by (simp add: navLoop.simps[of f ps Prev j])
    next
      case False
      have "navLoop f ps Prev (j + stepOf Prev) = List.find f (rev (take (nat (j + stepOf Prev + 1)) ps))"
        using 1(1)[OF _ False] True 1(2) by (simp add: stepOf_def)
      with False True 1(2) tk show ?thesis
        by (simp add: navLoop.simps[of f ps Prev j] stepOf_def)
    qed
  qed
qed

subsection \<open>Grouping keeps the photos apart\<close>

lemma groupByKey_snoc: "groupByKey key (xs @ [x]) = addToGroup (key x) x (groupByKey key xs)"
  by (simp add: groupByKey_def)

lemma map_of_addToGroup:
  "map_of (addToGroup k x g) =
     (map_of g)(k \<mapsto> (case map_of g k of None \<Rightarrow> [x] | Some ys \<Rightarrow> ys @ [x]))"
  by (induction g) (auto simp: fun_eq_iff)

lemma keys_addToGroup:
  "map fst (addToGroup k x g) = (if k \<in> fst ` set g then map fst g else map fst g @ [k])"
  by (induction g) (force simp: image_iff)+

lemma mset_addToGroup:
  "mset (concat (map snd (addToGroup k x g))) = add_mset x (mset (concat (map snd g)))"
  by (induction g) auto

lemma distinct_keys_groupByKey: "distinct (map fst (groupByKey key xs))"
  by (induction xs rule: rev_induct) (auto simp: groupByKey_def keys_addToGroup)

lemma mset_groupByKey: "mset (concat (map snd (groupByKey key xs))) = mset xs"
  by (induction xs rule: rev_induct) (simp_all add: groupByKey_snoc mset_addToGroup groupByKey_def)

lemma map_of_groupByKey:
  "map_of (groupByKey key xs) k =
     (if k \<in> key ` set xs then Some (filter (\<lambda>x. key x = k) xs) else None)"
proof (induction xs rule: rev_induct)
  case Nil then show ?case by (simp add: groupByKey_def)
next
  case (snoc x xs)
  then show ?case by (force simp: groupByKey_snoc map_of_addToGroup filter_empty_conv image_iff)
qed

lemma mset_group_lookup:
  "mset (case map_of (groupByKey key xs) k of None \<Rightarrow> [] | Some g \<Rightarrow> stillsThenVideos sv iv g)
     = filter_mset (\<lambda>x. key x = k) (mset xs)"
proof (cases "k \<in> key ` set xs")
  case True
  then show ?thesis by (simp add: map_of_groupByKey mset_stillsThenVideos)
next
  case False
  then have "filter_mset (\<lambda>x. key x = k) (mset xs) = {#}"
    by (auto simp: filter_mset_eq_conv)
  with False show ?thesis by (simp add: map_of_groupByKey)
qed

lemma mset_concat_by_keys:
  assumes "distinct bs" and "\<And>b. mset (e b) = filter_mset (\<lambda>x. key x = b) M"
  shows "mset (concat (map e bs)) = filter_mset (\<lambda>x. key x \<in> set bs) M"
  using assms(1)
proof (induction bs)
  case Nil then show ?case by simp
next
  case (Cons b bs)
  have "filter_mset (\<lambda>x. key x = b) M + filter_mset (\<lambda>x. key x \<in> set bs) M
        = filter_mset (\<lambda>x. key x = b \<or> key x \<in> set bs) M"
    using Cons.prems by (induction M) auto
  with Cons assms(2) show ?case by simp
qed

lemma distinct_map_submset:
  assumes "mset ys \<subseteq># mset xs" and "distinct (map f xs)"
  shows "distinct (map f ys)"
proof -
  have "mset (map f ys) \<subseteq># mset (map f xs)"
    using assms(1) by (simp add: image_mset_subseteq_mono)
  then have "\<And>a. count (mset (map f ys)) a \<le> count (mset (map f xs)) a"
    by (simp add: mset_subset_eq_count)
  moreover have "\<And>a. count (mset (map f xs)) a \<le> 1"
    using assms(2) by (simp add: distinct_count_atmost_1)
  ultimately have "\<And>a. count (mset (map f ys)) a \<le> 1" by (meson order_trans)
  then show ?thesis
    by (metis count_mset_0_iff distinct_count_atmost_1 le_antisym less_one linorder_not_le)
qed

lemma fold_groups_photos:
  "fst (fold (\<lambda>(l, g) (acc, gs).
               (acc @ stillsThenVideos sv iv g,
                gs @ [\<lparr>label = l, groupPhotos = g, startIndex = length acc\<rparr>])) sg (a0, g0))
   = a0 @ concat (map (\<lambda>lg. stillsThenVideos sv iv (snd lg)) sg)"
  by (induction sg arbitrary: a0 g0) (simp_all add: case_prod_beta)

lemma mset_concat_stills:
  "mset (concat (map (\<lambda>lg. stillsThenVideos sv iv (snd lg)) sg)) = mset (concat (map snd sg))"
  by (induction sg) (simp_all add: mset_stillsThenVideos)

lemma mset_concat_snd:
  "mset (concat (map snd sg)) = sum_mset (image_mset (\<lambda>lg. mset (snd lg)) (mset sg))"
  by (induction sg) simp_all

lemma mset_concat_snd_perm:
  "mset sg = mset sg' \<Longrightarrow> mset (concat (map snd sg)) = mset (concat (map snd sg'))"
  by (simp add: mset_concat_snd)

lemma distinct_bucketOrder: "distinct bucketOrder"
  by (simp add: bucketOrder_def js_def)

lemma groupBySubfolder_photos:
  "photos (groupBySubfolder lc srt selDay getGroup sv iv)
     = concat (map (\<lambda>lg. stillsThenVideos sv iv (snd lg))
         (sortBy (compareLabels lc) (groupByKey (\<lambda>p. getGroup p (Some selDay)) srt)))"
  using fold_groups_photos[of sv iv _ "[]" "[]"]
  by (simp add: groupBySubfolder_def Let_def case_prod_beta)

lemma groupBySubfolder_indexMap:
  "indexMap (groupBySubfolder lc srt selDay getGroup sv iv)
     = indexMapOf (photos (groupBySubfolder lc srt selDay getGroup sv iv))"
  by (simp add: groupBySubfolder_def Let_def case_prod_beta)

lemma mset_groupBySubfolder:
  "mset (photos (groupBySubfolder lc srt selDay getGroup sv iv)) = mset srt"
proof -
  let ?g = "groupByKey (\<lambda>p. getGroup p (Some selDay)) srt"
  have "mset (concat (map snd (sortBy (compareLabels lc) ?g))) = mset (concat (map snd ?g))"
    by (rule mset_concat_snd_perm) (rule mset_sortBy)
  then show ?thesis
    by (simp add: groupBySubfolder_photos mset_concat_stills mset_groupByKey)
qed

lemma mset_groupByBucket:
  "mset (photos (groupByBucket srt sv iv)) \<subseteq># mset srt"
proof -
  have "mset (photos (groupByBucket srt sv iv))
        = filter_mset (\<lambda>x. bucketKey x \<in> set bucketOrder) (mset srt)"
    unfolding groupByBucket_def Let_def buildIndexMap_def
    by (simp add: mset_concat_by_keys[OF distinct_bucketOrder mset_group_lookup])
  then show ?thesis by simp
qed

lemma mset_groupByDay:
  "mset (photos (groupByDay srt sv iv)) \<subseteq># mset srt"
proof -
  let ?days = "groupByKey day srt"
  have "mset (sortBy compareDays (map fst ?days)) = mset (map fst ?days)"
    by (rule mset_sortBy)
  then have d: "distinct (sortBy compareDays (map fst ?days))"
    using distinct_keys_groupByKey[of day srt] by (metis mset_eq_imp_distinct_iff)
  have "mset (photos (groupByDay srt sv iv))
        = filter_mset (\<lambda>x. day x \<in> set (sortBy compareDays (map fst ?days))) (mset srt)"
    unfolding groupByDay_def Let_def buildIndexMap_def
    by (simp add: mset_concat_by_keys[OF d mset_group_lookup])
  then show ?thesis by simp
qed

lemma sortPhotos_indexMap:
  "indexMap (sortPhotos lc ps opts) = indexMapOf (photos (sortPhotos lc ps opts))"
  by (simp add: sortPhotos_def Let_def groupBySubfolder_indexMap groupByBucket_def
        groupByDay_def buildIndexMap_def)

lemma sortPhotos_submset: "mset (photos (sortPhotos lc ps opts)) \<subseteq># mset ps"
proof -
  have "mset (photos (groupBySubfolder lc (sortBy (comparePhotos lc) ps) sd gg sv iv)) \<subseteq># mset ps" for sd gg sv iv
    by (simp add: mset_groupBySubfolder mset_sortBy)
  moreover have "mset (photos (groupByBucket (sortBy (comparePhotos lc) ps) sv iv)) \<subseteq># mset ps" for sv iv
    using mset_groupByBucket[of "sortBy (comparePhotos lc) ps" sv iv] by (simp add: mset_sortBy)
  moreover have "mset (photos (groupByDay (sortBy (comparePhotos lc) ps) sv iv)) \<subseteq># mset ps" for sv iv
    using mset_groupByDay[of "sortBy (comparePhotos lc) ps" sv iv] by (simp add: mset_sortBy)
  ultimately show ?thesis
    by (simp add: sortPhotos_def Let_def buildIndexMap_def mset_stillsThenVideos mset_sortBy)
qed

lemma sortPhotos_distinct:
  "distinct (map photoId ps) \<Longrightarrow> distinct (map photoId (photos (sortPhotos lc ps opts)))"
  using sortPhotos_submset by (rule distinct_map_submset)

lemma ex_sorted: "sortPhotos codeUnitCompare [img01, img02] noOptions = buildIndexMap [img02, img01]"
  by (simp add: sortPhotos_def noOptions_def sortBy_def comparePhotos_def img01_def img02_def
        examplePhoto_def stillsThenVideos_def)

lemma ex_index: "indexMap (sortPhotos codeUnitCompare [img01, img02] noOptions) (js ''p2'') = Some 0"
  unfolding ex_sorted
  by (simp add: buildIndexMap_def indexMapOf_def img01_def img02_def examplePhoto_def js_def)

subsection \<open>Claims about the ordering engine\<close>

text \<open>
  Claim C1, as amended. \<open>localeCompare\<close> is any consistent comparison. For every list of
  photos with pairwise distinct ids that \<open>localeCompare\<close> tells apart (it returns no zero
  for two different ids of the list), the base comparison (timestamp, then path falling
  back to the name, then name, then id) is a strict total order on the photos of the list:
  two photos compare equal only when they are the same photo, and of two different photos
  one comes strictly before the other. On all photos the comparison is asymmetric and
  transitive. Sorting the output of \<open>sortPhotos\<close> again, with no grouping, returns the
  identical result, for every list of photos.
\<close>

theorem base_order_strict_total_sort_idempotent:
  assumes "consistentComparator lc"
  shows "(distinct (map photoId ps)
          \<and> (\<forall>a\<in>set ps. \<forall>b\<in>set ps. photoId a \<noteq> photoId b \<longrightarrow> lc (photoId a) (photoId b) \<noteq> 0)
          \<longrightarrow> (\<forall>a\<in>set ps. \<forall>b\<in>set ps. (comparePhotos lc a b = 0) = (a = b))
            \<and> (\<forall>a\<in>set ps. \<forall>b\<in>set ps.
                  a \<noteq> b \<longrightarrow> comparePhotos lc a b < 0 \<or> comparePhotos lc b a < 0))
       \<and> (\<forall>a b. (comparePhotos lc a b < 0) = (comparePhotos lc b a > 0))
       \<and> (\<forall>a b c. comparePhotos lc a b < 0 \<longrightarrow> comparePhotos lc b c < 0
                   \<longrightarrow> comparePhotos lc a c < 0)
       \<and> (groupBy opts = None
          \<longrightarrow> sortPhotos lc (photos (sortPhotos lc ps opts)) opts = sortPhotos lc ps opts)"
proof (intro conjI impI)
  assume h: "distinct (map photoId ps)
          \<and> (\<forall>a\<in>set ps. \<forall>b\<in>set ps. photoId a \<noteq> photoId b \<longrightarrow> lc (photoId a) (photoId b) \<noteq> 0)"
  have z: "(comparePhotos lc a b = 0) = (a = b)" if "a \<in> set ps" "b \<in> set ps" for a b
  proof
    assume "comparePhotos lc a b = 0"
    then have "lc (photoId a) (photoId b) = 0" by (simp add: comparePhotos_zero)
    with h that have "photoId a = photoId b" by blast
    with h that show "a = b" by (auto simp: distinct_map inj_on_def)
  next
    assume "a = b"
    then show "comparePhotos lc a b = 0"
      using cc_refl[OF cc_comparePhotos[OF assms]] by simp
  qed
  then show "\<forall>a\<in>set ps. \<forall>b\<in>set ps. (comparePhotos lc a b = 0) = (a = b)" by blast
  show "\<forall>a\<in>set ps. \<forall>b\<in>set ps. a \<noteq> b \<longrightarrow> comparePhotos lc a b < 0 \<or> comparePhotos lc b a < 0"
  proof (intro ballI impI)
    fix a b assume ab: "a \<in> set ps" "b \<in> set ps" "a \<noteq> b"
    then have "comparePhotos lc a b \<noteq> 0" using z by blast
    then show "comparePhotos lc a b < 0 \<or> comparePhotos lc b a < 0"
      using cc_anti[OF cc_comparePhotos[OF assms], of b a] by auto
  qed
next
  show "\<forall>a b. (comparePhotos lc a b < 0) = (comparePhotos lc b a > 0)"
    using cc_anti[OF cc_comparePhotos[OF assms]] by blast
next
  show "\<forall>a b c. comparePhotos lc a b < 0 \<longrightarrow> comparePhotos lc b c < 0 \<longrightarrow> comparePhotos lc a c < 0"
    using cc_trans_lt_le[OF cc_comparePhotos[OF assms]] by (metis less_imp_le)
next
  assume g: "groupBy opts = None"
  have "stillsThenVideos (separateVideos opts) (isVideo opts)
          (sortBy (comparePhotos lc)
             (stillsThenVideos (separateVideos opts) (isVideo opts) (sortBy (comparePhotos lc) ps)))
        = stillsThenVideos (separateVideos opts) (isVideo opts) (sortBy (comparePhotos lc) ps)"
    using cc_comparePhotos[OF assms] by (rule resort_stillsThenVideos)
  then show "sortPhotos lc (photos (sortPhotos lc ps opts)) opts = sortPhotos lc ps opts"
    using g by (simp add: sortPhotos_def buildIndexMap_def Let_def)
qed

theorem base_order_witness:
  "consistentComparator codeUnitCompare \<and> distinct (map photoId [img01, img02])
   \<and> groupBy noOptions = None
   \<and> comparePhotos codeUnitCompare img02 img01 < 0
   \<and> sortPhotos codeUnitCompare (photos (sortPhotos codeUnitCompare [img01, img02] noOptions))
        noOptions
       = sortPhotos codeUnitCompare [img01, img02] noOptions"
proof -
  have d: "distinct (map photoId [img01, img02])"
    by (simp add: img01_def img02_def examplePhoto_def js_def)
  have s: "\<forall>a\<in>set [img01, img02]. \<forall>b\<in>set [img01, img02].
             photoId a \<noteq> photoId b \<longrightarrow> codeUnitCompare (photoId a) (photoId b) \<noteq> 0"
    by (simp add: codeUnitCompare_def)
  have g: "groupBy noOptions = None" by (simp add: noOptions_def)
  have ne: "img02 \<noteq> img01" by (simp add: img01_def img02_def examplePhoto_def)
  note t = base_order_strict_total_sort_idempotent[OF cc_codeUnitCompare,
      of "[img01, img02]" noOptions]
  from t d s have "\<forall>a\<in>set [img01, img02]. \<forall>b\<in>set [img01, img02].
      a \<noteq> b \<longrightarrow> comparePhotos codeUnitCompare a b < 0 \<or> comparePhotos codeUnitCompare b a < 0"
    by blast
  with ne have "comparePhotos codeUnitCompare img02 img01 < 0
      \<or> comparePhotos codeUnitCompare img01 img02 < 0" by simp
  moreover have "\<not> comparePhotos codeUnitCompare img01 img02 < 0"
    by (simp add: comparePhotos_def img01_def img02_def examplePhoto_def)
  ultimately have 1: "comparePhotos codeUnitCompare img02 img01 < 0" by blast
  from t g have 2: "sortPhotos codeUnitCompare
        (photos (sortPhotos codeUnitCompare [img01, img02] noOptions)) noOptions
       = sortPhotos codeUnitCompare [img01, img02] noOptions" by blast
  from cc_codeUnitCompare d g 1 2 show ?thesis by blast
qed

text \<open>
  Claim C1 as stated fails: \<open>localeCompare\<close> returns zero for two different ids that are
  canonically equivalent, so two photos with different ids, and equal in timestamp, path
  and name, compare equal.
\<close>

theorem canonically_equivalent_ids_compare_equal:
  "distinct (map photoId [precomposed, decomposed])
   \<and> precomposed \<noteq> decomposed
   \<and> comparePhotos canonicalCompare precomposed decomposed = 0"
  by (simp add: precomposed_def decomposed_def img01_def examplePhoto_def comparePhotos_def
      pathKey_def canonicalCompare_def codeUnitCompare_def Let_def)

text \<open>
  Claim C8, as amended. In the result of \<open>sortPhotos\<close> on photos with pairwise distinct ids,
  whatever the options and the collation, an id of the index map is the id of the photo at
  its index. Without a filter, \<open>next\<close> followed by \<open>prev\<close> from the photo reached returns the
  original photo; at the end of the sequence \<open>next\<close> returns \<open>null\<close>, at its start \<open>prev\<close>
  returns \<open>null\<close>. With a filter, \<open>next\<close> returns the first accepted photo after the current
  one and \<open>prev\<close> the nearest accepted photo before it, \<open>null\<close> when there is none.
\<close>

theorem navigate_next_prev_roundtrip:
  assumes "distinct (map photoId ps)"
    and "result = sortPhotos lc ps opts"
    and "indexMap result pid = Some i"
  shows "i < length (photos result) \<and> photoId (photos result ! i) = pid
       \<and> (i + 1 < length (photos result) \<longrightarrow>
            navigatePhotos pid Next result None = Some (photos result ! (i + 1))
          \<and> navigatePhotos (photoId (photos result ! (i + 1))) Prev result None
              = Some (photos result ! i))
       \<and> (i + 1 = length (photos result) \<longrightarrow> navigatePhotos pid Next result None = None)
       \<and> (i = 0 \<longrightarrow> navigatePhotos pid Prev result None = None)
       \<and> navigatePhotos pid Next result (Some f) = List.find f (drop (i + 1) (photos result))
       \<and> navigatePhotos pid Prev result (Some f) = List.find f (rev (take i (photos result)))"
proof -
  let ?qs = "photos result"
  have im: "indexMap result = indexMapOf ?qs"
    using assms(2) by (simp add: sortPhotos_indexMap)
  have d: "distinct (map photoId ?qs)"
    using assms(1,2) by (simp add: sortPhotos_distinct)
  have i: "i < length ?qs" "photoId (?qs ! i) = pid"
    using indexMapOf_SomeD[of ?qs pid i] assms(3) im by simp_all
  have cur: "getPhotoIndex pid (indexMap result) = int i"
    using assms(3) by (simp add: getPhotoIndex_def)
  have nxt: "navigatePhotos pid Next result None = Some (?qs ! (i + 1))"
    if "i + 1 < length ?qs"
    using that cur by (simp add: navigatePhotos_def stepOf_def nat_add_distrib)
  have ret: "navigatePhotos (photoId (?qs ! (i + 1))) Prev result None = Some (?qs ! i)"
    if "i + 1 < length ?qs"
  proof -
    have "indexMap result (photoId (?qs ! (i + 1))) = Some (i + 1)"
      using indexMapOf_distinct[OF d that] im by simp
    then have "getPhotoIndex (photoId (?qs ! (i + 1))) (indexMap result) = int i + 1"
      by (simp add: getPhotoIndex_def)
    then show ?thesis using i(1) by (simp add: navigatePhotos_def stepOf_def)
  qed
  have atEnd: "navigatePhotos pid Next result None = None" if "i + 1 = length ?qs"
    using that cur by (simp add: navigatePhotos_def stepOf_def)
  have atStart: "navigatePhotos pid Prev result None = None" if "i = 0"
    using that cur by (simp add: navigatePhotos_def stepOf_def)
  have fnext: "navigatePhotos pid Next result (Some f) = List.find f (drop (i + 1) ?qs)"
    using cur navLoop_next[of "int i + 1" f ?qs]
    by (simp add: navigatePhotos_def stepOf_def nat_add_distrib)
  have fprev: "navigatePhotos pid Prev result (Some f) = List.find f (rev (take i ?qs))"
    using cur i(1) navLoop_prev[of "int i - 1" ?qs f]
    by (simp add: navigatePhotos_def stepOf_def)
  from i nxt ret atEnd atStart fnext fprev show ?thesis by blast
qed

theorem navigate_next_prev_roundtrip_witness:
  "navigatePhotos (js ''p2'') Next (sortPhotos codeUnitCompare [img01, img02] noOptions) None = Some img01
   \<and> navigatePhotos (photoId img01) Prev (sortPhotos codeUnitCompare [img01, img02] noOptions) None = Some img02"
proof -
  have d: "distinct (map photoId [img01, img02])"
    by (simp add: img01_def img02_def examplePhoto_def js_def)
  have ph: "photos (sortPhotos codeUnitCompare [img01, img02] noOptions) = [img02, img01]"
    by (simp add: ex_sorted buildIndexMap_def)
  from navigate_next_prev_roundtrip[OF d refl ex_index] show ?thesis
    by (simp add: ph)
qed

text \<open>
  Claim C8 as stated fails: when two photos of the result share an id, the index map keeps
  the last index of that id. From the first of four photos \<open>next\<close> reaches the second, and
  \<open>prev\<close> from the id of the second starts at the fourth and lands on the third, not on the
  first. The timestamps differ, so the collation is never asked.
\<close>

theorem duplicate_id_breaks_roundtrip:
  "indexMap (sortPhotos codeUnitCompare [dupA, dupB, dupC, dupD] noOptions) (photoId dupA) = Some 0
   \<and> navigatePhotos (photoId dupA) Next
        (sortPhotos codeUnitCompare [dupA, dupB, dupC, dupD] noOptions) None = Some dupB
   \<and> navigatePhotos (photoId dupB) Prev
        (sortPhotos codeUnitCompare [dupA, dupB, dupC, dupD] noOptions) None = Some dupC
   \<and> dupC \<noteq> dupA"
proof -
  have r: "sortPhotos codeUnitCompare [dupA, dupB, dupC, dupD] noOptions
           = buildIndexMap [dupA, dupB, dupC, dupD]"
    by (simp add: sortPhotos_def noOptions_def sortBy_def comparePhotos_def dupA_def dupB_def
        dupC_def dupD_def examplePhoto_def stillsThenVideos_def)
  have a: "indexMapOf [dupA, dupB, dupC, dupD] (photoId dupA) = Some 0"
    by (simp add: indexMapOf_def dupA_def dupB_def dupC_def dupD_def examplePhoto_def js_def)
  have b: "indexMapOf [dupA, dupB, dupC, dupD] (photoId dupB) = Some 3"
    by (simp add: indexMapOf_def dupA_def dupB_def dupC_def dupD_def examplePhoto_def js_def)
  have n: "dupC \<noteq> dupA" by (simp add: dupA_def dupC_def examplePhoto_def)
  from a b n show ?thesis
    unfolding r by (simp add: buildIndexMap_def navigatePhotos_def getPhotoIndex_def stepOf_def)
qed

text \<open>
  Claim C10. For every ordering result, \<open>navigatePhotos\<close> called with a photo id that the
  index map does not contain returns \<open>null\<close> (no photo), in either direction and with or
  without a filter.
\<close>

theorem navigate_unknown_id:
  assumes "indexMap result pid = None"
  shows "navigatePhotos pid d result filt = None"
  using assms by (simp add: navigatePhotos_def getPhotoIndex_def)

theorem navigate_unknown_id_witness:
  "indexMap (sortPhotos codeUnitCompare [img01, img02] noOptions) (js ''p3'') = None
   \<and> navigatePhotos (js ''p3'') Next (sortPhotos codeUnitCompare [img01, img02] noOptions) None = None"
proof -
  have h: "indexMap (sortPhotos codeUnitCompare [img01, img02] noOptions) (js ''p3'') = None"
    unfolding ex_sorted
    by (simp add: buildIndexMap_def indexMapOf_def img01_def img02_def examplePhoto_def js_def)
  from navigate_unknown_id[OF h] h show ?thesis by simp
qed
section \<open>Reconciliation: proofs\<close>

lemma cachedEditsOf_snoc:
  "cachedEditsOf (es @ [ed]) =
     (case editFilePath ed of
        None \<Rightarrow> cachedEditsOf es
      | Some p \<Rightarrow> if p = [] then cachedEditsOf es else (cachedEditsOf es)(p \<mapsto> ed))"
  by (simp add: cachedEditsOf_def split: option.splits)

lemma cachedEditsOf_find:
  "fp \<noteq> [] \<Longrightarrow> cachedEditsOf es fp = List.find (\<lambda>ed. editFilePath ed = Some fp) (rev es)"
proof (induction es rule: rev_induct)
  case Nil then show ?case by (simp add: cachedEditsOf_def)
next
  case (snoc ed es)
  then show ?case by (auto simp: cachedEditsOf_snoc split: option.splits)
qed

lemma overlayCached_fields:
  "day (overlayCached p c) = editDay c"
  "bucket (overlayCached p c) = (if editBucket c = None \<or> editBucket c = Some [] then bucket p else editBucket c)"
  "sequence (overlayCached p c) = editSequence c"
  "favorite (overlayCached p c) = editFavorite c"
  "rating (overlayCached p c) = editRating c"
  "archived (overlayCached p c) = editArchived c"
  "currentName (overlayCached p c) = editCurrentName c"
  "subfolderOverride (overlayCached p c) = editSubfolderOverride c"
  "thumbnail (overlayCached p c) = thumbnail p"
  "detectedDay (overlayCached p c) = detectedDay p"
  "detectedBucket (overlayCached p c) = detectedBucket p"
  "isPreOrganized (overlayCached p c) = isPreOrganized p"
  "organizationConfidence (overlayCached p c) = organizationConfidence p"
  "photoId (overlayCached p c) = photoId p"
  "originalName (overlayCached p c) = originalName p"
  "timestamp (overlayCached p c) = timestamp p"
  "mimeType (overlayCached p c) = mimeType p"
  "filePath (overlayCached p c) = filePath p"
  "sourceFolder (overlayCached p c) = sourceFolder p"
  "folderHierarchy (overlayCached p c) = folderHierarchy p"
  by (auto simp: overlayCached_def split: option.splits)

lemma filePath_mergePhoto: "filePath (mergePhoto m p) = filePath p"
  by (simp add: mergePhoto_def overlayCached_fields split: option.splits)

lemma set_applyCachedEdits_filePath:
  "p \<in> set (applyCachedEdits es ps) \<Longrightarrow> \<exists>q \<in> set ps. filePath p = filePath q"
  by (auto simp: applyCachedEdits_def filePath_mergePhoto split: option.splits)






lemma length_insertBy: "length (insertBy cmp x ys) = Suc (length ys)"
  by (induction ys) simp_all

lemma length_sortBy: "length (sortBy cmp xs) = length xs"
  by (induction xs) (simp_all add: sortBy_def length_insertBy)

lemma set_insertBy: "set (insertBy cmp x ys) = insert x (set ys)"
  by (induction ys) auto

lemma set_sortBy: "set (sortBy cmp xs) = set xs"
  by (induction xs) (simp_all add: sortBy_def set_insertBy)

lemma length_buildLoop_ge: "length acc \<le> length (buildLoop e fs acc seen)"
proof (induction fs arbitrary: acc seen)
  case Nil then show ?case by simp
next
  case (Cons f fs)
  show ?case
  proof (cases "fileFingerprint f \<in> seen")
    case True then show ?thesis using Cons.IH[of acc seen] by simp
  next
    case False
    then show ?thesis
      using Cons.IH[of "acc @ [photoOfEntry e (length acc) f]" "insert (fileFingerprint f) seen"]
      by simp
  qed
qed

lemma buildLoop_empty_iff: "(buildLoop e fs [] {} = []) = (fs = [])"
proof (cases fs)
  case Nil then show ?thesis by simp
next
  case (Cons f rest)
  have "1 \<le> length (buildLoop e rest ([] @ [photoOfEntry e 0 f]) (insert (fileFingerprint f) {}))"
    using length_buildLoop_ge[of "[photoOfEntry e 0 f]" e rest "{fileFingerprint f}"] by simp
  then show ?thesis using Cons by auto
qed

lemma buildPhotosFromHandle_empty_iff:
  "(buildPhotosFromHandle e root = []) = (collectFiles root [] = [])"
proof -
  have "(buildPhotosFromHandle e root = []) = (buildLoop e (collectFiles root []) [] {} = [])"
    unfolding buildPhotosFromHandle_def
    by (metis length_0_conv length_sortBy)
  then show ?thesis by (simp add: buildLoop_empty_iff)
qed


lemma filePath_photoOfEntry: "filePath (photoOfEntry e n entry) = Some (entryPath entry)"
  by (simp add: photoOfEntry_def Let_def)



subsection \<open>Claims about reconciliation\<close>

text \<open>
  Claim C2, as amended. For a fresh photo whose path has an entry in the cached edits (the
  last entry of that path), the merge takes day, sequence, favorite, rating, archived,
  currentName and subfolderOverride from the entry, and the bucket too when the entry has
  one; when the cached bucket is \<open>null\<close> or empty the bucket of the fresh scan stays. Thumbnail,
  detection provenance, id, name, timestamp and path come from the fresh scan. In
  particular a cached bucket "B" with favorite set gives bucket "B" and favorite.
\<close>

theorem merge_overlays_cached_edits:
  assumes "i < length freshPhotos"
    and "filePath (freshPhotos ! i) = Some fp" and "fp \<noteq> []"
    and "List.find (\<lambda>ed. editFilePath ed = Some fp) (rev edits) = Some cached"
    and "merged = applyCachedEdits (Some edits) freshPhotos ! i"
  shows "day merged = editDay cached
       \<and> bucket merged = (if editBucket cached = None \<or> editBucket cached = Some []
                          then bucket (freshPhotos ! i) else editBucket cached)
       \<and> sequence merged = editSequence cached
       \<and> favorite merged = editFavorite cached
       \<and> rating merged = editRating cached
       \<and> archived merged = editArchived cached
       \<and> currentName merged = editCurrentName cached
       \<and> subfolderOverride merged = editSubfolderOverride cached
       \<and> thumbnail merged = thumbnail (freshPhotos ! i)
       \<and> detectedDay merged = detectedDay (freshPhotos ! i)
       \<and> detectedBucket merged = detectedBucket (freshPhotos ! i)
       \<and> isPreOrganized merged = isPreOrganized (freshPhotos ! i)
       \<and> organizationConfidence merged = organizationConfidence (freshPhotos ! i)
       \<and> photoId merged = photoId (freshPhotos ! i)
       \<and> originalName merged = originalName (freshPhotos ! i)
       \<and> timestamp merged = timestamp (freshPhotos ! i)
       \<and> filePath merged = filePath (freshPhotos ! i)
       \<and> (editBucket cached = Some (js ''B'') \<and> editFavorite cached
            \<longrightarrow> bucket merged = Some (js ''B'') \<and> favorite merged)"
proof -
  have "cachedEditsOf edits fp = Some cached"
    using assms(3,4) by (simp add: cachedEditsOf_find)
  then have "merged = overlayCached (freshPhotos ! i) cached"
    using assms(1,2,3,5) by (simp add: applyCachedEdits_def mergePhoto_def)
  then show ?thesis by (simp add: overlayCached_fields js_def)
qed

theorem merge_overlays_cached_edits_witness:
  "bucket (applyCachedEdits (Some [keptEdit]) [detectedA] ! 0) = Some (js ''B'')
   \<and> favorite (applyCachedEdits (Some [keptEdit]) [detectedA] ! 0)
   \<and> detectedBucket (applyCachedEdits (Some [keptEdit]) [detectedA] ! 0) = Some (js ''A'')"
proof -
  have 1: "0 < length [detectedA]" by simp
  have 2: "filePath ([detectedA] ! 0) = Some (js ''Day 1/IMG_01.jpg'')"
    by (simp add: detectedA_def img01_def examplePhoto_def)
  have 3: "js ''Day 1/IMG_01.jpg'' \<noteq> []" by (simp add: js_def)
  have 4: "List.find (\<lambda>ed. editFilePath ed = Some (js ''Day 1/IMG_01.jpg'')) (rev [keptEdit])
           = Some keptEdit"
    by (simp add: keptEdit_def exampleEdit_def)
  have b: "editBucket keptEdit = Some (js ''B'')" "editFavorite keptEdit"
    by (simp_all add: keptEdit_def exampleEdit_def)
  have d: "detectedBucket ([detectedA] ! 0) = Some (js ''A'')"
    by (simp add: detectedA_def)
  from merge_overlays_cached_edits[OF 1 2 3 4 refl] b d show ?thesis by (simp add: js_def)
qed

text \<open>
  Claim C2 as stated fails: a cached entry whose bucket is \<open>null\<close> does not overlay the
  bucket "A" that the fresh scan detected.
\<close>

theorem cleared_bucket_not_overlaid:
  "filePath detectedA = editFilePath clearedEdit
   \<and> editBucket clearedEdit = None
   \<and> map bucket (applyCachedEdits (Some [clearedEdit]) [detectedA]) = [Some (js ''A'')]"
  by (simp add: applyCachedEdits_def mergePhoto_def cachedEditsOf_def overlayCached_def
        detectedA_def clearedEdit_def exampleEdit_def img01_def examplePhoto_def js_def)



text \<open>
  Claim C9. When the scan of the project folder yields no file, \<open>getState\<close> fails: it
  returns an error and no project state, and local storage is left as it was. With the
  handle database open and access granted, the error is the one for a folder that is no
  longer available and nothing at all is changed.
\<close>

theorem zero_files_fail_reconciliation:
  assumes "handleStore w pid = Some h"
    and "collectFiles (handleEntries h) [] = []"
  shows "(\<exists>err. fst (getState e w pid) = Inl err)
       \<and> localStorage (snd (getState e w pid)) = localStorage w
       \<and> (indexedDB w = DbOpens \<and> hasRequestPermission h \<and> requestPermission h = Granted
            \<longrightarrow> getState e w pid = (Inl FolderAccessNoLongerAvailable, w))"
proof -
  have fresh: "buildPhotosFromHandle e (handleEntries h) = []"
    using assms(2) by (simp add: buildPhotosFromHandle_empty_iff)
  have rec: "reconcile n st [] = Inl FolderAccessNoLongerAvailable" for n st
    by (simp add: reconcile_def)
  show ?thesis
    using assms(1) fresh rec
    by (auto simp: getState_def Let_def openHandleDb_def split: dbStatus.splits)
qed

theorem zero_files_fail_reconciliation_witness:
  "getState exampleEnv (exampleWorld [] []) (js ''proj'')
     = (Inl FolderAccessNoLongerAvailable, exampleWorld [] [])"
proof -
  have hs: "handleStore (exampleWorld [] []) (js ''proj'') = Some (exampleHandle [])"
    by (simp add: exampleWorld_def)
  have z: "collectFiles (handleEntries (exampleHandle [])) [] = []"
    by (simp add: exampleHandle_def collectFiles_def)
  have ok: "indexedDB (exampleWorld [] []) = DbOpens \<and> hasRequestPermission (exampleHandle [])
            \<and> requestPermission (exampleHandle []) = Granted"
    by (simp add: exampleWorld_def exampleHandle_def)
  from zero_files_fail_reconciliation[OF hs z, of exampleEnv] ok show ?thesis by blast
qed
section \<open>Scanning: proofs\<close>

lemma buildLoop_paths:
  "map filePath (buildLoop e fs acc seen)
     = map filePath acc
       @ map (\<lambda>f. Some (entryPath f))
           (firstByKey fileFingerprint (filter (\<lambda>f. fileFingerprint f \<notin> seen) fs))"
proof (induction fs arbitrary: acc seen)
  case Nil then show ?case by simp
next
  case (Cons f fs)
  show ?case
  proof (cases "fileFingerprint f \<in> seen")
    case True then show ?thesis using Cons.IH[of acc seen] by simp
  next
    case False
    have "filter (\<lambda>g. fileFingerprint g \<notin> insert (fileFingerprint f) seen) fs
          = filter (\<lambda>y. fileFingerprint y \<noteq> fileFingerprint f)
              (filter (\<lambda>g. fileFingerprint g \<notin> seen) fs)"
      by (induction fs) auto
    then show ?thesis
      using False Cons.IH[of "acc @ [photoOfEntry e (length acc) f]"
          "insert (fileFingerprint f) seen"]
      by (simp add: filePath_photoOfEntry)
  qed
qed

lemma buildLoop_photos:
  "p \<in> set (buildLoop e fs acc seen) \<Longrightarrow>
     p \<in> set acc \<or> (\<exists>n f. f \<in> set fs \<and> p = photoOfEntry e n f)"
proof (induction fs arbitrary: acc seen)
  case Nil then show ?case by simp
next
  case (Cons f fs)
  show ?case
  proof (cases "fileFingerprint f \<in> seen")
    case True
    then show ?thesis using Cons.IH[of acc seen] Cons.prems by auto
  next
    case False
    then have "p \<in> set (acc @ [photoOfEntry e (length acc) f])
               \<or> (\<exists>n g. g \<in> set fs \<and> p = photoOfEntry e n g)"
      using Cons.IH[of "acc @ [photoOfEntry e (length acc) f]" "insert (fileFingerprint f) seen"]
        Cons.prems by simp
    then show ?thesis by auto
  qed
qed

lemma set_firstByKey: "set (firstByKey k xs) \<subseteq> set xs"
proof (induction k xs rule: firstByKey.induct)
  case (1 k) then show ?case by simp
next
  case (2 k x xs) then show ?case by auto
qed

lemma keys_firstByKey: "k ` set (firstByKey k xs) = k ` set xs"
proof (induction k xs rule: firstByKey.induct)
  case (1 k) then show ?case by simp
next
  case (2 k x xs)
  have "k ` set xs \<subseteq> insert (k x) (k ` set (filter (\<lambda>y. k y \<noteq> k x) xs))" by auto
  with 2 show ?case by auto
qed

lemma distinct_keys_firstByKey: "distinct (map k (firstByKey k xs))"
proof (induction k xs rule: firstByKey.induct)
  case (1 k) then show ?case by simp
next
  case (2 k x xs)
  have "k x \<notin> k ` set (firstByKey k (filter (\<lambda>y. k y \<noteq> k x) xs))"
    using set_firstByKey[of k "filter (\<lambda>y. k y \<noteq> k x) xs"] by auto
  with 2 show ?case by simp
qed

lemma find_firstByKey:
  "List.find (\<lambda>y. k y = v) (firstByKey k xs) = List.find (\<lambda>y. k y = v) xs"
proof (induction k xs rule: firstByKey.induct)
  case (1 k) then show ?case by simp
next
  case (2 k x xs)
  have "k x \<noteq> v \<Longrightarrow> List.find (\<lambda>y. k y = v) (filter (\<lambda>y. k y \<noteq> k x) xs)
                       = List.find (\<lambda>y. k y = v) xs"
    by (induction xs) auto
  with 2 show ?case by auto
qed

lemma natToString_digits: "c \<in> set (natToString n) \<Longrightarrow> 48 \<le> c \<and> c \<le> 57"
proof (induction n rule: natToString.induct)
  case (1 n)
  show ?case
  proof (cases "n < 10")
    case True
    then have "natToString n = [48 + n]" by (subst natToString.simps) simp
    with 1(2) True show ?thesis by simp
  next
    case False
    then have eq: "natToString n = natToString (n div 10) @ [48 + n mod 10]"
      by (subst natToString.simps) simp
    have "n mod 10 < 10" by simp
    then have "48 \<le> 48 + n mod 10 \<and> 48 + n mod 10 \<le> 57" by linarith
    with 1 False eq show ?thesis by auto
  qed
qed

lemma natToString_nonempty: "natToString n \<noteq> []"
  by (subst natToString.simps) simp

lemma parseInt_snoc: "parseInt (ds @ [c]) = 10 * parseInt ds + (int c - 48)"
  by (simp add: parseInt_def)

lemma parseInt_natToString: "parseInt (natToString n) = int n"
proof (induction n rule: natToString.induct)
  case (1 n)
  show ?case
  proof (cases "n < 10")
    case True
    then have "natToString n = [48 + n]" by (subst natToString.simps) simp
    then show ?thesis by (simp add: parseInt_def)
  next
    case False
    then have eq: "natToString n = natToString (n div 10) @ [48 + n mod 10]"
      by (subst natToString.simps) simp
    from 1 False have "parseInt (natToString (n div 10)) = int (n div 10)" by simp
    then have "parseInt (natToString n) = 10 * int (n div 10) + int (n mod 10)"
      by (simp add: eq parseInt_snoc)
    also have "\<dots> = int n" by presburger
    finally show ?thesis .
  qed
qed

lemma natToString_inj: "natToString m = natToString n \<Longrightarrow> m = n"
  by (metis parseInt_natToString of_nat_eq_iff)

lemma numberToString_inj: "numberToString i = numberToString j \<Longrightarrow> i = j"
proof -
  assume eq: "numberToString i = numberToString j"
  have hd_digit: "hd (natToString n) \<noteq> 45" for n
  proof -
    have "hd (natToString n) \<in> set (natToString n)"
      using natToString_nonempty[of n] by simp
    then have "48 \<le> hd (natToString n)" using natToString_digits by blast
    then show ?thesis by simp
  qed
  show ?thesis
  proof (cases "i < 0")
    case True
    show ?thesis
    proof (cases "j < 0")
      case jn: True
      with True eq have "natToString (nat (- i)) = natToString (nat (- j))"
        by (simp add: numberToString_def)
      then have "nat (- i) = nat (- j)" by (rule natToString_inj)
      with True jn show ?thesis by simp
    next
      case False
      with True eq have "45 # natToString (nat (- i)) = natToString (nat j)"
        by (simp add: numberToString_def)
      then have "hd (natToString (nat j)) = 45" by (metis list.sel(1))
      with hd_digit show ?thesis by blast
    qed
  next
    case False
    show ?thesis
    proof (cases "j < 0")
      case True
      with False eq have "natToString (nat i) = 45 # natToString (nat (- j))"
        by (simp add: numberToString_def)
      then have "hd (natToString (nat i)) = 45" by (metis list.sel(1))
      with hd_digit show ?thesis by blast
    next
      case jp: False
      with False eq have "natToString (nat i) = natToString (nat j)"
        by (simp add: numberToString_def)
      then have "nat i = nat j" by (rule natToString_inj)
      with False jp show ?thesis by simp
    qed
  qed
qed

lemma numberToString_no_bar: "124 \<notin> set (numberToString i)"
  using natToString_digits[of 124] by (auto simp: numberToString_def)

lemma split_at_last:
  "a @ x # b = a' @ x # b' \<Longrightarrow> x \<notin> set b \<Longrightarrow> x \<notin> set b' \<Longrightarrow> a = a' \<and> b = b'"
proof (induction a arbitrary: a')
  case Nil
  show ?case
  proof (cases a')
    case Nil with Nil.prems show ?thesis by simp
  next
    case (Cons y ys)
    with Nil.prems have "b = ys @ x # b'" by simp
    then have "x \<in> set b" by simp
    with Nil.prems show ?thesis by blast
  qed
next
  case (Cons y a)
  show ?case
  proof (cases a')
    case Nil
    with Cons.prems have "b' = a @ x # b" by simp
    then have "x \<in> set b'" by simp
    with Cons.prems show ?thesis by blast
  next
    case (Cons z zs)
    with Cons.prems Cons.IH[of zs] show ?thesis by simp
  qed
qed

lemma fileFingerprint_eq_iff:
  "(fileFingerprint f = fileFingerprint g)
     = (fileName (entryFile f) = fileName (entryFile g)
        \<and> lastModified (entryFile f) = lastModified (entryFile g)
        \<and> fileSize (entryFile f) = fileSize (entryFile g))"
proof
  assume eq: "fileFingerprint f = fileFingerprint g"
  let ?n = "\<lambda>h. fileName (entryFile h)"
  let ?t = "\<lambda>h. numberToString (lastModified (entryFile h))"
  let ?s = "\<lambda>h. numberToString (fileSize (entryFile h))"
  from eq have e1: "(?n f @ 124 # ?t f) @ 124 # ?s f = (?n g @ 124 # ?t g) @ 124 # ?s g"
    by (simp add: fileFingerprint_def js_def)
  have 12: "?n f @ 124 # ?t f = ?n g @ 124 # ?t g \<and> ?s f = ?s g"
    by (rule split_at_last[OF e1 numberToString_no_bar numberToString_no_bar])
  then have e2: "?n f @ 124 # ?t f = ?n g @ 124 # ?t g" by simp
  have 34: "?n f = ?n g \<and> ?t f = ?t g"
    by (rule split_at_last[OF e2 numberToString_no_bar numberToString_no_bar])
  from 12 34 show "fileName (entryFile f) = fileName (entryFile g)
        \<and> lastModified (entryFile f) = lastModified (entryFile g)
        \<and> fileSize (entryFile f) = fileSize (entryFile g)"
    using numberToString_inj by blast
next
  assume "fileName (entryFile f) = fileName (entryFile g)
        \<and> lastModified (entryFile f) = lastModified (entryFile g)
        \<and> fileSize (entryFile f) = fileSize (entryFile g)"
  then show "fileFingerprint f = fileFingerprint g" by (simp add: fileFingerprint_def)
qed

lemma find_key_member:
  "f \<in> set xs \<Longrightarrow> \<exists>g \<in> set xs. List.find (\<lambda>h. k h = k f) xs = Some g \<and> k g = k f"
  by (induction xs) auto

lemma photoOfEntry_fields:
  "detectedDay (photoOfEntry e n f)
     = paDetectedDay (analyzePathStructure (dateOf e) (entryPath f) None)"
  "detectedBucket (photoOfEntry e n f)
     = paDetectedBucket (analyzePathStructure (dateOf e) (entryPath f) None)"
  "isPreOrganized (photoOfEntry e n f)
     = paIsPreOrganized (analyzePathStructure (dateOf e) (entryPath f) None)"
  "organizationConfidence (photoOfEntry e n f)
     = paConfidence (analyzePathStructure (dateOf e) (entryPath f) None)"
  "day (photoOfEntry e n f)
     = (let pa = analyzePathStructure (dateOf e) (entryPath f) None in
        if paIsPreOrganized pa \<and> (paConfidence pa = High \<or> paConfidence pa = Medium)
        then paDetectedDay pa else None)"
  "bucket (photoOfEntry e n f)
     = (let pa = analyzePathStructure (dateOf e) (entryPath f) None in
        if paIsPreOrganized pa \<and> (paConfidence pa = High \<or> paConfidence pa = Medium)
        then paDetectedBucket pa else None)"
  "timestamp (photoOfEntry e n f) = lastModified (entryFile f)"
  "originalName (photoOfEntry e n f) = fileName (entryFile f)"
  by (simp_all add: photoOfEntry_def Let_def)

lemma extractDay_confidence:
  "extractDayFromFolderName d name ts = Some dd \<Longrightarrow> confidenceOf dd = High \<or> confidenceOf dd = Medium"
  by (auto simp: extractDayFromFolderName_def dayPrefixBlock_def isoDateBlock_def
        numericPrefixBlock_def Let_def split: option.splits if_splits)

lemma detectBucket_confidence:
  "detectBucketFromFolderName name = Some bd \<Longrightarrow> confidenceOf bd \<noteq> NoConfidence"
  by (auto simp: detectBucketFromFolderName_def split: option.splits if_splits)

lemma bucketAfter_confidence:
  "bucketAfter rest = (Some b, bc) \<Longrightarrow> bc \<noteq> NoConfidence"
  by (auto simp: bucketAfter_def detectBucket_confidence split: list.splits option.splits)

lemma scanSegments_confidence:
  "scanSegments d segs = (Some dy, Some b, dc, bc) \<Longrightarrow> dc \<noteq> NoConfidence \<and> bc \<noteq> NoConfidence"
proof (induction segs)
  case Nil then show ?case by simp
next
  case (Cons s segs)
  then show ?case
    by (auto simp: Let_def bucketAfter_confidence split: option.splits prod.splits if_splits)
qed

lemma analyze_preorganized_confidence:
  assumes "paIsPreOrganized (analyzePathStructure d path df)"
  shows "paConfidence (analyzePathStructure d path df) = High
         \<or> paConfidence (analyzePathStructure d path df) = Medium"
proof -
  define segs where "segs = butlast (splitPath path)"
  define vars where "vars =
     (case findIndex (\<lambda>segment.
                        let lower = toLowerCase segment in
                        lower = toLowerCase (case df of None \<Rightarrow> js ''01_DAYS''
                                             | Some f \<Rightarrow> if f = [] then js ''01_DAYS'' else f)
                          \<or> lower = js ''01_days'' \<or> lower = js ''days'') segs of
               Some i \<Rightarrow>
                 if i + 1 < length segs
                 then (case extractDayFromFolderName d (segs ! (i + 1)) None of
                         None \<Rightarrow> (None, None, NoConfidence, NoConfidence)
                       | Some dd \<Rightarrow>
                           (let (b, bc) = bucketAfter (drop (i + 2) segs)
                            in (Some (detected dd), b, confidenceOf dd, bc)))
                 else scanSegments d segs
             | None \<Rightarrow> scanSegments d segs)"
  obtain dy b dc bc where v: "vars = (dy, b, dc, bc)" by (cases vars) auto
  have pa: "paIsPreOrganized (analyzePathStructure d path df) = (dy \<noteq> None \<and> b \<noteq> None)"
    "paConfidence (analyzePathStructure d path df)
       = (if dy \<noteq> None \<and> b \<noteq> None
          then (if dc = High \<and> bc = High then High
                else if dc \<noteq> NoConfidence \<and> bc \<noteq> NoConfidence then Medium else Low)
          else if dy \<noteq> None then dc else NoConfidence)"
    using v unfolding analyzePathStructure_def vars_def segs_def Let_def
    by (simp_all add: case_prod_beta)
  from assms pa obtain dy' b' where some: "dy = Some dy'" "b = Some b'" by auto
  have "dc \<noteq> NoConfidence \<and> bc \<noteq> NoConfidence"
    using v some unfolding vars_def
    by (auto simp: Let_def split: option.splits if_splits prod.splits
          dest: scanSegments_confidence bucketAfter_confidence extractDay_confidence)
  with pa some show ?thesis by auto
qed

lemmas collect_simps = collectFiles_def jpeg_def startsWith_def shouldSkipFile_def
  isSupportedFile_def extensionOf_def SUPPORTED_EXT_def joinPath_def toLowerCase_def js_def

lemmas rx_simps = matchStart_def seqs_def alts_def canon_def capture_def parseInt_def
  isDigit_def isWhiteSpace_def isDaySeparator_def isHyphen_def isBucketLetter_def
  isLineTerminator_def js_def Let_def

lemma collect_duplicateTree:
  "map (\<lambda>f. (entryPath f, fileName (entryFile f), lastModified (entryFile f), fileSize (entryFile f)))
     (collectFiles duplicateTree [])
   = [(js ''Day1/IMG_0001.jpg'', js ''IMG_0001.jpg'', 1000, 3),
      (js ''Day2/IMG_0001.jpg'', js ''IMG_0001.jpg'', 1000, 3),
      (js ''Day2/IMG_0002.jpg'', js ''IMG_0002.jpg'', 2000, 4)]"
  by (simp add: duplicateTree_def collect_simps)

lemma analyze_dayOnly:
  "analyzePathStructure d (js ''01_DAYS/Day 1/IMG_01.jpg'') None
     = \<lparr>paDetectedDay = Some 1, paDetectedBucket = None, paIsPreOrganized = False,
        paConfidence = High, paPathSegments = [js ''01_DAYS'', js ''Day 1'']\<rparr>"
  by (simp add: analyzePathStructure_def splitPath_def isSlash_def toLowerCase_def
        bucketAfter_def extractDayFromFolderName_def dayPrefixBlock_def
        DAY_PREFIX_PATTERN_def rx_simps)

lemma analyze_organized:
  "analyzePathStructure d (js ''01_DAYS/Day 1/A_Establishing/IMG_01.jpg'') None
     = \<lparr>paDetectedDay = Some 1, paDetectedBucket = Some (js ''A''), paIsPreOrganized = True,
        paConfidence = High,
        paPathSegments = [js ''01_DAYS'', js ''Day 1'', js ''A_Establishing'']\<rparr>"
  by (simp add: analyzePathStructure_def splitPath_def isSlash_def toLowerCase_def
        bucketAfter_def extractDayFromFolderName_def dayPrefixBlock_def
        DAY_PREFIX_PATTERN_def detectBucketFromFolderName_def BUCKET_STANDARD_PATTERN_def
        categories_def toUpperCase_def rx_simps)

lemma scan_dayOnlyTree:
  "buildPhotosFromHandle exampleEnv dayOnlyTree
     = [photoOfEntry exampleEnv 0 (jpegEntry ''01_DAYS/Day 1/IMG_01.jpg'' ''IMG_01.jpg'' 1000 10)]"
  by (simp add: buildPhotosFromHandle_def dayOnlyTree_def jpegEntry_def sortBy_def collect_simps)

lemma scan_bucketTree:
  "buildPhotosFromHandle exampleEnv bucketTree
     = [photoOfEntry exampleEnv 0
          (jpegEntry ''01_DAYS/Day 1/A_Establishing/IMG_01.jpg'' ''IMG_01.jpg'' 1000 10)]"
  by (simp add: buildPhotosFromHandle_def bucketTree_def jpegEntry_def sortBy_def collect_simps)

lemma entryPath_jpegEntry: "entryPath (jpegEntry path name t n) = js path"
  by (simp add: jpegEntry_def)

subsection \<open>Claims about the scan\<close>

text \<open>
  Claim C4, as amended. The fingerprint of a file is determined by, and determines, the
  triple of its name as it is (not lowercased), its time of last modification and its
  size. The photos of a scan are, up to the final ordering by timestamp, the files that
  are first in the enumeration with their fingerprint: the kept files have pairwise
  different fingerprints, and for every enumerated file the first file with the same
  fingerprint is kept, so that copies of one file under several folders give one photo
  with the path of the first copy.
\<close>

theorem duplicate_suppression:
  assumes "files = collectFiles root []" and "out = buildPhotosFromHandle e root"
  shows "(\<forall>f g. (fileFingerprint f = fileFingerprint g)
                = (fileName (entryFile f) = fileName (entryFile g)
                   \<and> lastModified (entryFile f) = lastModified (entryFile g)
                   \<and> fileSize (entryFile f) = fileSize (entryFile g)))
       \<and> mset (map filePath out)
           = mset (map (\<lambda>f. Some (entryPath f)) (firstByKey fileFingerprint files))
       \<and> distinct (map fileFingerprint (firstByKey fileFingerprint files))
       \<and> (\<forall>f \<in> set files. \<exists>g \<in> set (firstByKey fileFingerprint files).
             fileFingerprint g = fileFingerprint f
             \<and> List.find (\<lambda>h. fileFingerprint h = fileFingerprint f) files = Some g)"
proof -
  have 1: "\<forall>f g. (fileFingerprint f = fileFingerprint g)
                = (fileName (entryFile f) = fileName (entryFile g)
                   \<and> lastModified (entryFile f) = lastModified (entryFile g)
                   \<and> fileSize (entryFile f) = fileSize (entryFile g))"
    using fileFingerprint_eq_iff by blast
  have "map filePath (buildLoop e files [] {})
        = map (\<lambda>f. Some (entryPath f)) (firstByKey fileFingerprint files)"
    by (simp add: buildLoop_paths)
  then have 2: "mset (map filePath out)
           = mset (map (\<lambda>f. Some (entryPath f)) (firstByKey fileFingerprint files))"
    using assms by (metis buildPhotosFromHandle_def mset_map mset_sortBy)
  have 3: "distinct (map fileFingerprint (firstByKey fileFingerprint files))"
    by (rule distinct_keys_firstByKey)
  have 4: "\<exists>g \<in> set (firstByKey fileFingerprint files).
             fileFingerprint g = fileFingerprint f
             \<and> List.find (\<lambda>h. fileFingerprint h = fileFingerprint f) files = Some g"
    if "f \<in> set files" for f
  proof -
    from find_key_member[OF that, of fileFingerprint] obtain g where
      g: "List.find (\<lambda>h. fileFingerprint h = fileFingerprint f) files = Some g"
        "fileFingerprint g = fileFingerprint f" by blast
    then have "List.find (\<lambda>h. fileFingerprint h = fileFingerprint f)
                 (firstByKey fileFingerprint files) = Some g"
      by (simp add: find_firstByKey)
    then have "g \<in> set (firstByKey fileFingerprint files)"
      by (auto simp: find_Some_iff)
    with g show ?thesis by blast
  qed
  from 1 2 3 4 show ?thesis by blast
qed

theorem duplicate_suppression_witness:
  "mset (map filePath (buildPhotosFromHandle exampleEnv duplicateTree))
     = {#Some (js ''Day1/IMG_0001.jpg''), Some (js ''Day2/IMG_0002.jpg'')#}"
proof -
  have "map (\<lambda>f. Some (entryPath f)) (firstByKey fileFingerprint (collectFiles duplicateTree []))
        = [Some (js ''Day1/IMG_0001.jpg''), Some (js ''Day2/IMG_0002.jpg'')]"
    by (simp add: duplicateTree_def collect_simps fileFingerprint_eq_iff)
  with duplicate_suppression[OF refl refl, of exampleEnv duplicateTree] show ?thesis by simp
qed

text \<open>
  Claim C4 as stated fails: two files whose names differ only in case, with the same time
  and size, have the same lowercased fingerprint, yet both are kept.
\<close>

theorem names_differing_in_case_both_kept:
  "toLowerCase (js ''IMG.JPG'') = toLowerCase (js ''img.jpg'')
   \<and> map (\<lambda>f. (fileName (entryFile f), lastModified (entryFile f), fileSize (entryFile f)))
        (collectFiles caseTree [])
      = [(js ''IMG.JPG'', 1000, 3), (js ''img.jpg'', 1000, 3)]
   \<and> length (buildPhotosFromHandle exampleEnv caseTree) = 2
   \<and> filePath ` set (buildPhotosFromHandle exampleEnv caseTree)
      = {Some (js ''a/IMG.JPG''), Some (js ''b/img.jpg'')}"
proof -
  have 1: "toLowerCase (js ''IMG.JPG'') = toLowerCase (js ''img.jpg'')"
    by (simp add: toLowerCase_def js_def)
  have 2: "map (\<lambda>f. (fileName (entryFile f), lastModified (entryFile f), fileSize (entryFile f)))
        (collectFiles caseTree [])
      = [(js ''IMG.JPG'', 1000, 3), (js ''img.jpg'', 1000, 3)]"
    by (simp add: caseTree_def collect_simps)
  have 3: "map filePath (buildLoop exampleEnv (collectFiles caseTree []) [] {})
           = [Some (js ''a/IMG.JPG''), Some (js ''b/img.jpg'')]"
    by (simp add: filePath_photoOfEntry caseTree_def collect_simps fileFingerprint_eq_iff)
  have 4: "length (buildPhotosFromHandle exampleEnv caseTree) = 2"
    using arg_cong[OF 3, of length] by (simp add: buildPhotosFromHandle_def length_sortBy)
  have 5: "filePath ` set (buildPhotosFromHandle exampleEnv caseTree)
      = {Some (js ''a/IMG.JPG''), Some (js ''b/img.jpg'')}"
    using arg_cong[OF 3, of set] by (simp add: buildPhotosFromHandle_def set_sortBy)
  from 1 2 3 4 5 show ?thesis by blast
qed

text \<open>
  Claim C7, as amended. Every photo of a scan records the detector's day, bucket,
  pre-organized flag and confidence for its path. The detected day and bucket become the
  editable day and bucket exactly when the path is pre-organized (both a day and a bucket
  were detected) with confidence high or medium, which a pre-organized path always has;
  otherwise both stay \<open>null\<close>. A low-confidence detection is therefore never applied.
\<close>

theorem detection_accepted_when_preorganized:
  assumes "p \<in> set (buildPhotosFromHandle e root)"
  shows "\<exists>path. filePath p = Some path
         \<and> (let pa = analyzePathStructure (dateOf e) path None in
              detectedDay p = paDetectedDay pa
            \<and> detectedBucket p = paDetectedBucket pa
            \<and> isPreOrganized p = paIsPreOrganized pa
            \<and> organizationConfidence p = paConfidence pa
            \<and> (if paIsPreOrganized pa \<and> (paConfidence pa = High \<or> paConfidence pa = Medium)
                then day p = paDetectedDay pa \<and> bucket p = paDetectedBucket pa
                else day p = None \<and> bucket p = None)
            \<and> (paConfidence pa = Low \<longrightarrow> day p = None \<and> bucket p = None)
            \<and> (paIsPreOrganized pa \<longrightarrow> paConfidence pa = High \<or> paConfidence pa = Medium))"
proof -
  from assms have "p \<in> set (buildLoop e (collectFiles root []) [] {})"
    by (simp add: buildPhotosFromHandle_def set_sortBy)
  then obtain n f where p: "p = photoOfEntry e n f"
    using buildLoop_photos by fastforce
  let ?pa = "analyzePathStructure (dateOf e) (entryPath f) None"
  have low: "paConfidence ?pa = Low \<longrightarrow> \<not> paIsPreOrganized ?pa"
    using analyze_preorganized_confidence[of "dateOf e" "entryPath f" None] by auto
  show ?thesis
    using analyze_preorganized_confidence[of "dateOf e" "entryPath f" None] low
    by (intro exI[of _ "entryPath f"]) (auto simp: p filePath_photoOfEntry photoOfEntry_fields Let_def)
qed

theorem detection_accepted_when_preorganized_witness:
  "\<exists>p \<in> set (buildPhotosFromHandle exampleEnv bucketTree).
     organizationConfidence p = High \<and> day p = Some 1 \<and> bucket p = Some (js ''A'')"
proof -
  let ?p = "photoOfEntry exampleEnv 0
          (jpegEntry ''01_DAYS/Day 1/A_Establishing/IMG_01.jpg'' ''IMG_01.jpg'' 1000 10)"
  have mem: "?p \<in> set (buildPhotosFromHandle exampleEnv bucketTree)"
    by (simp add: scan_bucketTree)
  have fp: "filePath ?p = Some (js ''01_DAYS/Day 1/A_Establishing/IMG_01.jpg'')"
    by (simp add: filePath_photoOfEntry entryPath_jpegEntry)
  from detection_accepted_when_preorganized[OF mem] fp
  have "organizationConfidence ?p = High \<and> day ?p = Some 1 \<and> bucket ?p = Some (js ''A'')"
    by (auto simp: analyze_organized Let_def)
  with mem show ?thesis by blast
qed

text \<open>
  Claim C7 as stated fails: a day detected with confidence high, without a bucket folder,
  is recorded but not applied to the editable day.
\<close>

theorem high_confidence_day_not_applied:
  "map (\<lambda>p. (filePath p, organizationConfidence p, detectedDay p, day p))
     (buildPhotosFromHandle exampleEnv dayOnlyTree)
   = [(Some (js ''01_DAYS/Day 1/IMG_01.jpg''), High, Some 1, None)]"
  by (simp add: scan_dayOnlyTree filePath_photoOfEntry photoOfEntry_fields entryPath_jpegEntry
        analyze_dayOnly)

subsection \<open>The merge on a scanned photo\<close>

text \<open>
  The photo that the scan finds under \<open>01_DAYS/Day 1/A_Establishing\<close> has the detected
  bucket "A". A cached edit for its path with no bucket overlays the favorite flag and
  leaves the bucket "A" in place.
\<close>

lemma cleared_bucket_on_scanned_photo:
  "editBucket clearedScanEdit = None
   \<and> map (\<lambda>p. (filePath p, bucket p, favorite p))
        (applyCachedEdits (Some [clearedScanEdit]) (buildPhotosFromHandle exampleEnv bucketTree))
     = [(editFilePath clearedScanEdit, Some (js ''A''), True)]"
proof -
  have ne: "js ''01_DAYS/Day 1/A_Establishing/IMG_01.jpg'' \<noteq> []" by (simp add: js_def)
  show ?thesis
    unfolding scan_bucketTree
    using ne
    by (simp add: applyCachedEdits_def mergePhoto_def cachedEditsOf_def overlayCached_def
        clearedScanEdit_def exampleEdit_def filePath_photoOfEntry photoOfEntry_fields
        entryPath_jpegEntry analyze_organized)
qed

section \<open>Pattern detector: proofs\<close>

subsection \<open>What the matcher returns, as a set of results\<close>

lemma rmatch_Rep_set:
  "set (rmatch (Rep lo hi P) (s, c))
     = (\<lambda>k. (drop k s, c)) ` {k. lo \<le> k \<and> k \<le> length (takeWhile P s)
                                    \<and> (case hi of None \<Rightarrow> True | Some h \<Rightarrow> k \<le> h)}"
  by (auto simp: Let_def image_iff split: option.splits)

lemma rmatch_suffix: "(t, c') \<in> set (rmatch r (s, c)) \<Longrightarrow> \<exists>p. s = p @ t"
proof (induction r arbitrary: s c t c')
  case (Chr P)
  then show ?case by (auto split: list.splits if_splits)
next
  case (LitCI w)
  then show ?case by (auto split: if_splits intro: exI[of _ "take (length w) s"])
next
  case (Seq a b)
  from Seq.prems obtain u d where "(u, d) \<in> set (rmatch a (s, c))" "(t, c') \<in> set (rmatch b (u, d))"
    by auto
  with Seq.IH show ?case by (metis append.assoc)
next
  case (Alt a b)
  then show ?case by auto
next
  case (Opt a)
  then show ?case by auto
next
  case (Rep lo hi P)
  then obtain k where "t = drop k s" unfolding rmatch_Rep_set by blast
  then have "s = take k s @ t" by simp
  then show ?case by blast
next
  case (Grp a)
  then show ?case by auto
next
  case Eos
  then show ?case by (auto split: if_splits)
qed

lemma rmatch_Chr_iff:
  "((t, c') \<in> set (rmatch (Chr P) (s, c))) = ((\<exists>x. s = x # t \<and> P x) \<and> c' = c)"
  by (auto split: list.splits)

lemma rmatch_LitCI_iff:
  "((t, c') \<in> set (rmatch (LitCI w) (s, c)))
     = ((\<exists>p. s = p @ t \<and> map canon p = map canon w) \<and> c' = c)"
proof
  assume "(t, c') \<in> set (rmatch (LitCI w) (s, c))"
  then have "length w \<le> length s" "map canon (take (length w) s) = map canon w"
    "t = drop (length w) s" "c' = c"
    by (auto split: if_splits)
  then show "(\<exists>p. s = p @ t \<and> map canon p = map canon w) \<and> c' = c"
    by (intro conjI exI[of _ "take (length w) s"]) simp_all
next
  assume "(\<exists>p. s = p @ t \<and> map canon p = map canon w) \<and> c' = c"
  then obtain p where p: "s = p @ t" "map canon p = map canon w" "c' = c" by blast
  then have "length p = length w" by (metis length_map)
  with p show "(t, c') \<in> set (rmatch (LitCI w) (s, c))" by simp
qed

lemma rmatch_Seq_iff:
  "((t, c') \<in> set (rmatch (Seq a b) (s, c)))
     = (\<exists>u d. (u, d) \<in> set (rmatch a (s, c)) \<and> (t, c') \<in> set (rmatch b (u, d)))"
  by auto

lemma rmatch_Alt_iff:
  "((t, c') \<in> set (rmatch (Alt a b) (s, c)))
     = ((t, c') \<in> set (rmatch a (s, c)) \<or> (t, c') \<in> set (rmatch b (s, c)))"
  by auto

lemma rmatch_Opt_iff:
  "((t, c') \<in> set (rmatch (Opt a) (s, c)))
     = ((t, c') \<in> set (rmatch a (s, c)) \<or> (t = s \<and> c' = c))"
  by auto

lemma takeWhile_prefix_len:
  "list_all P p \<Longrightarrow> length p \<le> length (takeWhile P (p @ t))"
  by (induction p) auto

lemma rmatch_Rep_iff:
  "((t, c') \<in> set (rmatch (Rep lo hi P) (s, c)))
     = ((\<exists>p. s = p @ t \<and> list_all P p \<and> lo \<le> length p
             \<and> (case hi of None \<Rightarrow> True | Some h \<Rightarrow> length p \<le> h)) \<and> c' = c)"
proof
  assume "(t, c') \<in> set (rmatch (Rep lo hi P) (s, c))"
  then obtain k where k: "lo \<le> k" "k \<le> length (takeWhile P s)"
      "case hi of None \<Rightarrow> True | Some h \<Rightarrow> k \<le> h" "t = drop k s" "c' = c"
    unfolding rmatch_Rep_set by blast
  have len: "k \<le> length s" using k(2) length_takeWhile_le[of P s] by linarith
  have "take k s = take k (takeWhile P s)"
    using k(2) by (metis append_eq_conv_conj takeWhile_dropWhile_id take_append diff_is_0_eq take_0 append_Nil2 length_take min.absorb2 take_all_iff)
  then have "list_all P (take k s)"
    by (metis in_set_takeD list_all_iff set_takeWhileD)
  with k len show "(\<exists>p. s = p @ t \<and> list_all P p \<and> lo \<le> length p
             \<and> (case hi of None \<Rightarrow> True | Some h \<Rightarrow> length p \<le> h)) \<and> c' = c"
    by (intro conjI exI[of _ "take k s"]) (auto split: option.splits)
next
  assume "(\<exists>p. s = p @ t \<and> list_all P p \<and> lo \<le> length p
             \<and> (case hi of None \<Rightarrow> True | Some h \<Rightarrow> length p \<le> h)) \<and> c' = c"
  then obtain p where p: "s = p @ t" "list_all P p" "lo \<le> length p"
    "case hi of None \<Rightarrow> True | Some h \<Rightarrow> length p \<le> h" "c' = c" by blast
  have "length p \<le> length (takeWhile P s)" using p(1,2) takeWhile_prefix_len by blast
  with p show "(t, c') \<in> set (rmatch (Rep lo hi P) (s, c))"
    unfolding rmatch_Rep_set by (intro image_eqI[of _ _ "length p"]) simp_all
qed

lemma rmatch_Grp_iff:
  "((t, c') \<in> set (rmatch (Grp a) (s, c)))
     = (\<exists>d p. (t, d) \<in> set (rmatch a (s, c)) \<and> s = p @ t \<and> c' = d @ [p])"
proof
  assume "(t, c') \<in> set (rmatch (Grp a) (s, c))"
  then obtain d where d: "(t, d) \<in> set (rmatch a (s, c))"
    "c' = d @ [take (length s - length t) s]" by auto
  from rmatch_suffix[OF d(1)] obtain p where "s = p @ t" by blast
  with d show "\<exists>d p. (t, d) \<in> set (rmatch a (s, c)) \<and> s = p @ t \<and> c' = d @ [p]" by auto
next
  assume "\<exists>d p. (t, d) \<in> set (rmatch a (s, c)) \<and> s = p @ t \<and> c' = d @ [p]"
  then show "(t, c') \<in> set (rmatch (Grp a) (s, c))" by (auto simp: image_iff intro!: bexI)
qed

lemma rmatch_Eos_iff:
  "((t, c') \<in> set (rmatch Eos (s, c))) = (s = [] \<and> t = [] \<and> c' = c)"
  by auto

lemmas rmatch_iff = rmatch_Chr_iff rmatch_LitCI_iff rmatch_Seq_iff rmatch_Alt_iff
  rmatch_Opt_iff rmatch_Rep_iff rmatch_Grp_iff rmatch_Eos_iff

lemma matchStart_Some_mem:
  "matchStart r s = Some m \<Longrightarrow> \<exists>t. (t, m) \<in> set (rmatch r (s, []))"
  by (cases "rmatch r (s, [])") (auto simp: matchStart_def intro: exI[of _ "fst x" for x])

lemma matchStart_None_iff:
  "(matchStart r s = None) = (\<forall>t m. (t, m) \<notin> set (rmatch r (s, [])))"
  by (cases "rmatch r (s, [])") (auto simp: matchStart_def)

lemma matchStart_unique:
  assumes "(t, m) \<in> set (rmatch r (s, []))"
    and "\<And>t' m'. (t', m') \<in> set (rmatch r (s, [])) \<Longrightarrow> m' = m"
  shows "matchStart r s = Some m"
proof (cases "rmatch r (s, [])")
  case Nil with assms(1) show ?thesis by simp
next
  case (Cons st rest)
  then have "(fst st, snd st) \<in> set (rmatch r (s, []))" by simp
  then have "snd st = m" by (rule assms(2))
  with Cons show ?thesis by (simp add: matchStart_def)
qed

lemma letter_class:
  assumes "65 \<le> canon x" "canon x \<le> 90"
  shows "\<not> isDigit x" "\<not> isDaySeparator x" "\<not> isHyphen x"
  using assms
  by (auto simp: canon_def isDigit_def isDaySeparator_def isHyphen_def isWhiteSpace_def
      split: if_splits)


lemma length_1_2: "(length ds = 1 \<or> length ds = 2) = ((\<exists>a. ds = [a]) \<or> (\<exists>a b. ds = [a, b]))"
  by (cases ds; cases "tl ds"; cases "tl (tl ds)") auto



lemma rmatch_Grp_Chr_iff:
  "((t, c') \<in> set (rmatch (Grp (Chr P)) (s, c))) = (\<exists>x. s = x # t \<and> P x \<and> c' = c @ [[x]])"
  by (auto simp: rmatch_Grp_iff rmatch_Chr_iff simp del: rmatch.simps)


lemma seqI:
  "(u, d) \<in> set (rmatch a (s, c)) \<Longrightarrow> (t, m) \<in> set (rmatch b (u, d))
     \<Longrightarrow> (t, m) \<in> set (rmatch (Seq a b) (s, c))"
  by (auto simp del: rmatch.simps simp: rmatch_Seq_iff)

lemma litI: "map canon p = map canon w \<Longrightarrow> (t, c) \<in> set (rmatch (LitCI w) (p @ t, c))"
  by (auto simp: rmatch_LitCI_iff simp del: rmatch.simps)

lemma chrI: "P x \<Longrightarrow> (t, c) \<in> set (rmatch (Chr P) (x # t, c))"
  by simp


lemma repI:
  "list_all P p \<Longrightarrow> lo \<le> length p \<Longrightarrow> (case hi of None \<Rightarrow> True | Some h \<Rightarrow> length p \<le> h)
     \<Longrightarrow> (t, c) \<in> set (rmatch (Rep lo hi P) (p @ t, c))"
  by (auto simp: rmatch_Rep_iff simp del: rmatch.simps)

lemma grpChrI: "P x \<Longrightarrow> (t, c @ [[x]]) \<in> set (rmatch (Grp (Chr P)) (x # t, c))"
  by (auto simp: rmatch_Grp_Chr_iff simp del: rmatch.simps)




lemma seqD:
  "(t, m) \<in> set (rmatch (Seq a b) (s, c))
     \<Longrightarrow> \<exists>u d. (u, d) \<in> set (rmatch a (s, c)) \<and> (t, m) \<in> set (rmatch b (u, d))"
  by (simp add: rmatch_Seq_iff del: rmatch.simps)

























subsection \<open>Claims about day extraction\<close>




section \<open>Bucket extraction: proofs\<close>

lemma rmatch_plain:
  "plain r \<Longrightarrow>
     ((t, c') \<in> set (rmatch r (s, c))) = (c' = c \<and> (\<exists>p. s = p @ t \<and> inLang r p))"
proof (induction r arbitrary: s c t c')
  case (Chr P)
  show ?case by (auto simp: rmatch_Chr_iff simp del: rmatch.simps)
next
  case (LitCI w)
  show ?case by (auto simp: rmatch_LitCI_iff simp del: rmatch.simps)
next
  case (Seq a b)
  then have a: "\<And>s c t c'. ((t, c') \<in> set (rmatch a (s, c))) = (c' = c \<and> (\<exists>p. s = p @ t \<and> inLang a p))"
    and b: "\<And>s c t c'. ((t, c') \<in> set (rmatch b (s, c))) = (c' = c \<and> (\<exists>p. s = p @ t \<and> inLang b p))"
    by simp_all
  show ?case
  proof
    assume "(t, c') \<in> set (rmatch (Seq a b) (s, c))"
    then obtain u d where "(u, d) \<in> set (rmatch a (s, c))" "(t, c') \<in> set (rmatch b (u, d))"
      using seqD by blast
    then obtain p1 p2 where "d = c" "s = p1 @ u" "inLang a p1" "c' = d" "u = p2 @ t" "inLang b p2"
      unfolding a b by blast
    then show "c' = c \<and> (\<exists>p. s = p @ t \<and> inLang (Seq a b) p)"
      by (intro conjI exI[of _ "p1 @ p2"]) auto
  next
    assume "c' = c \<and> (\<exists>p. s = p @ t \<and> inLang (Seq a b) p)"
    then obtain p1 p2 where p: "c' = c" "s = (p1 @ p2) @ t" "inLang a p1" "inLang b p2" by auto
    have "(p2 @ t, c) \<in> set (rmatch a (s, c))" unfolding a using p by auto
    moreover have "(t, c') \<in> set (rmatch b (p2 @ t, c))" unfolding b using p by auto
    ultimately show "(t, c') \<in> set (rmatch (Seq a b) (s, c))" by (rule seqI)
  qed
next
  case (Alt a b)
  then show ?case by (auto simp: rmatch_Alt_iff simp del: rmatch.simps)
next
  case (Opt a)
  then show ?case by (auto simp: rmatch_Opt_iff simp del: rmatch.simps)
next
  case (Rep lo hi P)
  show ?case by (auto simp: rmatch_Rep_iff simp del: rmatch.simps)
next
  case (Grp a)
  then show ?case by simp
next
  case Eos
  then show ?case by simp
qed

lemma inLang_optHyphen:
  "inLang (Opt (Chr isHyphen)) h = (h = [] \<or> (\<exists>c. h = [c] \<and> isHyphen c))"
  by auto

lemma inLang_hyphenated:
  "inLang (Seq (Opt (Chr isHyphen)) (LitCI (js b))) r
     = (\<exists>h q. r = h @ q \<and> (h = [] \<or> (\<exists>c. h = [c] \<and> isHyphen c)) \<and> namedCI b q)"
  by (simp only: inLang.simps(3) inLang_optHyphen) (simp add: namedCI_def)

lemma inLang_opt_compound:
  "inLang (Seq (LitCI (js a)) (Opt (Seq (Opt (Chr isHyphen)) (LitCI (js b))))) p
     = (namedCI a p \<or> compoundCI a b p)"
proof -
  have "inLang (Seq (LitCI (js a)) (Opt (Seq (Opt (Chr isHyphen)) (LitCI (js b))))) p
      = (\<exists>p1 p2. p = p1 @ p2 \<and> namedCI a p1 \<and>
           ((\<exists>h q. p2 = h @ q \<and> (h = [] \<or> (\<exists>c. h = [c] \<and> isHyphen c)) \<and> namedCI b q)
            \<or> p2 = []))"
    by (simp only: inLang.simps namedCI_def disj_commute)
  also have "\<dots> = (namedCI a p \<or> compoundCI a b p)"
    unfolding compoundCI_def
  proof (intro iffI)
    assume "\<exists>p1 p2. p = p1 @ p2 \<and> namedCI a p1 \<and>
           ((\<exists>h q. p2 = h @ q \<and> (h = [] \<or> (\<exists>c. h = [c] \<and> isHyphen c)) \<and> namedCI b q)
            \<or> p2 = [])"
    then obtain p1 p2 where p: "p = p1 @ p2" "namedCI a p1"
      "(\<exists>h q. p2 = h @ q \<and> (h = [] \<or> (\<exists>c. h = [c] \<and> isHyphen c)) \<and> namedCI b q)
            \<or> p2 = []"
      by blast
    from p(3) show "namedCI a p \<or>
      (\<exists>p1 h q. p = p1 @ h @ q \<and> namedCI a p1 \<and> (h = [] \<or> (\<exists>c. h = [c] \<and> isHyphen c))
         \<and> namedCI b q)"
    proof
      assume "p2 = []" with p show ?thesis by simp
    next
      assume "\<exists>h q. p2 = h @ q \<and> (h = [] \<or> (\<exists>c. h = [c] \<and> isHyphen c)) \<and> namedCI b q"
      then obtain h q where "p2 = h @ q" "h = [] \<or> (\<exists>c. h = [c] \<and> isHyphen c)" "namedCI b q"
        by blast
      with p(1,2) show ?thesis by blast
    qed
  next
    assume "namedCI a p \<or>
      (\<exists>p1 h q. p = p1 @ h @ q \<and> namedCI a p1 \<and> (h = [] \<or> (\<exists>c. h = [c] \<and> isHyphen c))
         \<and> namedCI b q)"
    then show "\<exists>p1 p2. p = p1 @ p2 \<and> namedCI a p1 \<and>
           ((\<exists>h q. p2 = h @ q \<and> (h = [] \<or> (\<exists>c. h = [c] \<and> isHyphen c)) \<and> namedCI b q)
            \<or> p2 = [])"
    proof
      assume "namedCI a p"
      then have "p = p @ [] \<and> namedCI a p" by simp
      then show ?thesis by blast
    next
      assume "\<exists>p1 h q. p = p1 @ h @ q \<and> namedCI a p1
         \<and> (h = [] \<or> (\<exists>c. h = [c] \<and> isHyphen c)) \<and> namedCI b q"
      then show ?thesis by blast
    qed
  qed
  finally show ?thesis .
qed

lemma inLang_compound:
  "inLang (seqs [LitCI (js a), Opt (Chr isHyphen), LitCI (js b)]) p = compoundCI a b p"
proof -
  have "inLang (seqs [LitCI (js a), Opt (Chr isHyphen), LitCI (js b)]) p
      = (\<exists>p1 p2. p = p1 @ p2 \<and> namedCI a p1 \<and>
           (\<exists>h q. p2 = h @ q \<and> (h = [] \<or> (\<exists>c. h = [c] \<and> isHyphen c)) \<and> namedCI b q))"
    by (simp add: seqs_def namedCI_def disj_commute)
  also have "\<dots> = compoundCI a b p"
    unfolding compoundCI_def by blast
  finally show ?thesis .
qed

lemma inLang_named: "inLang (LitCI (js w)) p = namedCI w p"
  by (simp add: namedCI_def)

lemma alts_categories_eq:
  "alts categories =
     Alt (LitCI (js ''Establishing''))
    (Alt (LitCI (js ''People''))
    (Alt (Seq (LitCI (js ''Culture'')) (Opt (Seq (Opt (Chr isHyphen)) (LitCI (js ''Detail'')))))
    (Alt (LitCI (js ''Detail''))
    (Alt (Seq (LitCI (js ''Action'')) (Opt (Seq (Opt (Chr isHyphen)) (LitCI (js ''Moment'')))))
    (Alt (LitCI (js ''Moment''))
    (Alt (LitCI (js ''Transition''))
    (Alt (Alt (seqs [LitCI (js ''Mood''), Opt (Chr isHyphen), LitCI (js ''Food'')])
              (seqs [LitCI (js ''Food''), Opt (Chr isHyphen), LitCI (js ''Mood'')]))
    (Alt (LitCI (js ''Mood''))
    (Alt (LitCI (js ''Food''))
         (LitCI (js ''Archive'')))))))))))"
  by (simp add: alts_def categories_def)

lemma plain_categories: "plain (alts categories)"
  by (simp add: alts_categories_eq seqs_def)

lemma inLang_categories: "inLang (alts categories) p = isCategoryName p"
  unfolding alts_categories_eq isCategoryName_def
  by (simp only: inLang.simps(4) inLang_opt_compound inLang_compound inLang_named) blast

lemma namedCI_head:
  "namedCI (x # w) p \<Longrightarrow> p \<noteq> [] \<and> canon (hd p) = canon (of_char x)"
  by (auto simp: namedCI_def js_def)

lemma compoundCI_head:
  "compoundCI (x # a) b p \<Longrightarrow> p \<noteq> [] \<and> canon (hd p) = canon (of_char x)"
  unfolding compoundCI_def using namedCI_head by force

lemma category_head: "isCategoryName p \<Longrightarrow> p \<noteq> [] \<and> \<not> isHyphen (hd p)"
proof -
  assume "isCategoryName p"
  then have "p \<noteq> [] \<and> 65 \<le> canon (hd p) \<and> canon (hd p) \<le> 90"
    unfolding isCategoryName_def
    by (auto dest!: namedCI_head compoundCI_head simp: canon_def)
  then show ?thesis using letter_class(3) by blast
qed

lemma bucket_shape_iff:
  assumes "plain body"
  shows "((t, m) \<in> set (rmatch (seqs [Grp (Chr L), Rep 1 None H, Grp body, Eos]) (name, [])))
     = (\<exists>l seps q. name = l # seps @ q \<and> L l \<and> seps \<noteq> [] \<and> list_all H seps
           \<and> inLang body q \<and> m = [[l], q] \<and> t = [])"
proof
  assume "(t, m) \<in> set (rmatch (seqs [Grp (Chr L), Rep 1 None H, Grp body, Eos]) (name, []))"
  then have s: "(t, m) \<in> set (rmatch (Seq (Grp (Chr L)) (Seq (Rep 1 None H) (Seq (Grp body) Eos)))
                  (name, []))"
    by (simp add: seqs_def)
  from seqD[OF s] obtain u d where
    a: "(u, d) \<in> set (rmatch (Grp (Chr L)) (name, []))"
    and bc: "(t, m) \<in> set (rmatch (Seq (Rep 1 None H) (Seq (Grp body) Eos)) (u, d))"
    by blast
  from seqD[OF bc] obtain v d' where
    b: "(v, d') \<in> set (rmatch (Rep 1 None H) (u, d))"
    and c: "(t, m) \<in> set (rmatch (Seq (Grp body) Eos) (v, d'))"
    by blast
  from seqD[OF c] obtain w d'' where
    g: "(w, d'') \<in> set (rmatch (Grp body) (v, d'))"
    and e: "(t, m) \<in> set (rmatch Eos (w, d''))"
    by blast
  from a obtain l where l: "name = l # u" "L l" "d = [[l]]"
    by (auto simp: rmatch_Grp_Chr_iff simp del: rmatch.simps)
  from b obtain seps where seps: "u = seps @ v" "list_all H seps" "1 \<le> length seps" "d' = d"
    by (auto simp: rmatch_Rep_iff simp del: rmatch.simps)
  from e have e': "w = []" "t = []" "m = d''"
    by (auto simp: rmatch_Eos_iff simp del: rmatch.simps)
  from g obtain q where q: "v = q @ w" "inLang body q" "d'' = d' @ [q]"
    by (auto simp: rmatch_Grp_iff rmatch_plain[OF assms] simp del: rmatch.simps)
  from l seps e' q have "name = l # seps @ q \<and> L l \<and> seps \<noteq> [] \<and> list_all H seps
           \<and> inLang body q \<and> m = [[l], q] \<and> t = []" by auto
  then show "\<exists>l seps q. name = l # seps @ q \<and> L l \<and> seps \<noteq> [] \<and> list_all H seps
           \<and> inLang body q \<and> m = [[l], q] \<and> t = []" by blast
next
  assume "\<exists>l seps q. name = l # seps @ q \<and> L l \<and> seps \<noteq> [] \<and> list_all H seps
           \<and> inLang body q \<and> m = [[l], q] \<and> t = []"
  then obtain l seps q where f: "name = l # seps @ q" "L l" "seps \<noteq> []" "list_all H seps"
    "inLang body q" "m = [[l], q]" "t = []" by blast
  have a: "(seps @ q, [] @ [[l]]) \<in> set (rmatch (Grp (Chr L)) (l # seps @ q, []))"
    using f(2) by (rule grpChrI)
  have b: "(q, [] @ [[l]]) \<in> set (rmatch (Rep 1 None H) (seps @ q, [] @ [[l]]))"
    using f(3,4) by (intro repI) (auto simp: Suc_le_eq)
  have g: "([], ([] @ [[l]]) @ [q]) \<in> set (rmatch (Grp body) (q, [] @ [[l]]))"
    using f(5) by (simp add: rmatch_Grp_iff rmatch_plain[OF assms] del: rmatch.simps)
  have e: "([], ([] @ [[l]]) @ [q]) \<in> set (rmatch Eos ([], ([] @ [[l]]) @ [q]))"
    by (simp add: rmatch_Eos_iff del: rmatch.simps)
  have "([], ([] @ [[l]]) @ [q])
          \<in> set (rmatch (Seq (Grp (Chr L)) (Seq (Rep 1 None H) (Seq (Grp body) Eos)))
                  (l # seps @ q, []))"
    by (rule seqI[OF a seqI[OF b seqI[OF g e]]])
  with f show "(t, m) \<in> set (rmatch (seqs [Grp (Chr L), Rep 1 None H, Grp body, Eos]) (name, []))"
    by (simp add: seqs_def)
qed

lemma standard_iff:
  "((t, m) \<in> set (rmatch BUCKET_STANDARD_PATTERN (name, [])))
     = (\<exists>l seps q. name = l # seps @ q \<and> isBucketLetter l \<and> seps \<noteq> [] \<and> list_all isHyphen seps
           \<and> isCategoryName q \<and> m = [[l], q] \<and> t = [])"
  unfolding BUCKET_STANDARD_PATTERN_def
  by (simp only: bucket_shape_iff[OF plain_categories] inLang_categories)

lemma custom_iff:
  "((t, m) \<in> set (rmatch BUCKET_CUSTOM_PATTERN (name, [])))
     = (\<exists>l seps q. name = l # seps @ q \<and> isBucketLetter l \<and> seps \<noteq> [] \<and> list_all isHyphen seps
           \<and> (q \<noteq> [] \<and> list_all (\<lambda>c. \<not> isLineTerminator c) q) \<and> m = [[l], q] \<and> t = [])"
proof -
  have p: "plain (Rep 1 None (\<lambda>c. \<not> isLineTerminator c))" by simp
  have i: "inLang (Rep 1 None (\<lambda>c. \<not> isLineTerminator c)) q
           = (q \<noteq> [] \<and> list_all (\<lambda>c. \<not> isLineTerminator c) q)" for q
    by (cases q) auto
  show ?thesis
    unfolding BUCKET_CUSTOM_PATTERN_def
    by (simp only: bucket_shape_iff[OF p] i)
qed

lemma letter_iff:
  "((t, m) \<in> set (rmatch BUCKET_LETTER_PATTERN (name, [])))
     = (\<exists>l. name = [l] \<and> isBucketLetter l \<and> m = [[l]] \<and> t = [])"
  by (auto simp: BUCKET_LETTER_PATTERN_def seqs_def rmatch_Seq_iff rmatch_Grp_Chr_iff
      rmatch_Eos_iff simp del: rmatch.simps)

lemma numeric_iff:
  "((t, m) \<in> set (rmatch BUCKET_NUMERIC_PATTERN (name, [])))
     = (\<exists>x. name = [48, x] \<and> 49 \<le> x \<and> x \<le> 54 \<and> m = [name] \<and> t = [])"
  by (auto simp: BUCKET_NUMERIC_PATTERN_def seqs_def rmatch_Seq_iff rmatch_Grp_iff
      rmatch_Chr_iff rmatch_Eos_iff simp del: rmatch.simps)

lemma matchStart_standard:
  assumes "isBucketLetter l" "standardForm name l"
  shows "\<exists>q. matchStart BUCKET_STANDARD_PATTERN name = Some [[l], q]"
proof -
  from assms obtain seps cat where f: "name = l # seps @ cat" "seps \<noteq> []"
    "list_all isHyphen seps" "isCategoryName cat"
    unfolding standardForm_def by blast
  with assms(1) have "([], [[l], cat]) \<in> set (rmatch BUCKET_STANDARD_PATTERN (name, []))"
    unfolding standard_iff by blast
  then have "matchStart BUCKET_STANDARD_PATTERN name \<noteq> None"
    unfolding matchStart_None_iff by blast
  then obtain m where m: "matchStart BUCKET_STANDARD_PATTERN name = Some m" by blast
  from matchStart_Some_mem[OF m] obtain t where
    "(t, m) \<in> set (rmatch BUCKET_STANDARD_PATTERN (name, []))" by blast
  then obtain l' q where "name = l' # q" "\<exists>q'. m = [[l'], q']"
    unfolding standard_iff by blast
  with f(1) m show ?thesis by auto
qed

lemma matchStart_standard_None:
  "(\<forall>l. isBucketLetter l \<longrightarrow> \<not> standardForm name l)
     \<Longrightarrow> matchStart BUCKET_STANDARD_PATTERN name = None"
  unfolding matchStart_None_iff standard_iff standardForm_def by blast

lemma matchStart_custom:
  assumes "isBucketLetter l" "customForm name l"
  shows "\<exists>q. matchStart BUCKET_CUSTOM_PATTERN name = Some [[l], q]"
proof -
  from assms obtain seps suffix where f: "name = l # seps @ suffix" "seps \<noteq> []"
    "list_all isHyphen seps" "suffix \<noteq> []" "list_all (\<lambda>c. \<not> isLineTerminator c) suffix"
    unfolding customForm_def by blast
  with assms(1) have "([], [[l], suffix]) \<in> set (rmatch BUCKET_CUSTOM_PATTERN (name, []))"
    unfolding custom_iff by blast
  then have "matchStart BUCKET_CUSTOM_PATTERN name \<noteq> None"
    unfolding matchStart_None_iff by blast
  then obtain m where m: "matchStart BUCKET_CUSTOM_PATTERN name = Some m" by blast
  from matchStart_Some_mem[OF m] obtain t where
    "(t, m) \<in> set (rmatch BUCKET_CUSTOM_PATTERN (name, []))" by blast
  then obtain l' q where "name = l' # q" "\<exists>q'. m = [[l'], q']"
    unfolding custom_iff by blast
  with f(1) m show ?thesis by auto
qed

lemma matchStart_custom_None:
  "(\<forall>l. isBucketLetter l \<longrightarrow> \<not> customForm name l)
     \<Longrightarrow> matchStart BUCKET_CUSTOM_PATTERN name = None"
  unfolding matchStart_None_iff custom_iff customForm_def by blast

lemma matchStart_letter:
  "isBucketLetter l \<Longrightarrow> matchStart BUCKET_LETTER_PATTERN [l] = Some [[l]]"
  by (rule matchStart_unique[where t = "[]"]) (auto simp: letter_iff)

lemma matchStart_letter_None:
  "(\<forall>l. isBucketLetter l \<longrightarrow> name \<noteq> [l]) \<Longrightarrow> matchStart BUCKET_LETTER_PATTERN name = None"
  unfolding matchStart_None_iff letter_iff by blast

lemma matchStart_numeric:
  "49 \<le> x \<Longrightarrow> x \<le> 54 \<Longrightarrow> matchStart BUCKET_NUMERIC_PATTERN [48, x] = Some [[48, x]]"
  by (rule matchStart_unique[where t = "[]"]) (auto simp: numeric_iff)

lemma matchStart_numeric_None:
  "(\<forall>x. 49 \<le> x \<and> x \<le> 54 \<longrightarrow> name \<noteq> [48, x]) \<Longrightarrow> matchStart BUCKET_NUMERIC_PATTERN name = None"
  unfolding matchStart_None_iff numeric_iff by blast

lemma isMeceLetter_canon: "isMeceLetter l = (canon l \<in> set (js ''ABCDEMX''))"
  by (auto simp: isMeceLetter_def MECE_BUCKET_KEYS_def toUpperCase_def canon_def js_def)

text \<open>The class \<open>[A-MX]\<close> is the letters of the bucket table together with F to L.\<close>

lemma bucket_letter_class:
  "isBucketLetter l = (isMeceLetter l \<or> canon l \<in> set (js ''FGHIJKL''))"
proof
  assume "isBucketLetter l"
  then have "canon l = 65 \<or> canon l = 66 \<or> canon l = 67 \<or> canon l = 68 \<or> canon l = 69
      \<or> canon l = 70 \<or> canon l = 71 \<or> canon l = 72 \<or> canon l = 73 \<or> canon l = 74
      \<or> canon l = 75 \<or> canon l = 76 \<or> canon l = 77 \<or> canon l = 88"
    unfolding isBucketLetter_def by arith
  then show "isMeceLetter l \<or> canon l \<in> set (js ''FGHIJKL'')"
    by (auto simp: isMeceLetter_canon js_def)
next
  assume "isMeceLetter l \<or> canon l \<in> set (js ''FGHIJKL'')"
  then show "isBucketLetter l"
    by (auto simp: isMeceLetter_canon isBucketLetter_def js_def)
qed

lemma toUpperCase_single: "toUpperCase [l] = [canon l]"
  by (simp add: toUpperCase_def canon_def)

lemma standardForm_head:
  "standardForm name l \<Longrightarrow> name = l # tl name \<and> tl name \<noteq> [] \<and> isHyphen (hd (tl name))"
  unfolding standardForm_def by (auto simp: neq_Nil_conv)

lemma customForm_head:
  "customForm name l \<Longrightarrow> name = l # tl name \<and> tl name \<noteq> [] \<and> isHyphen (hd (tl name))"
  unfolding customForm_def by (auto simp: neq_Nil_conv)

lemma category_initial: "isCategoryName p \<Longrightarrow> canon (hd p) \<in> set (js ''EPCDAMTF'')"
  unfolding isCategoryName_def
  by (auto dest!: namedCI_head compoundCI_head simp: canon_def js_def)

lemma standardForm_split:
  assumes "standardForm name l"
  shows "isCategoryName (dropWhile isHyphen (tl name))"
proof -
  from assms obtain seps cat where f: "name = l # seps @ cat" "list_all isHyphen seps"
    "isCategoryName cat"
    unfolding standardForm_def by blast
  from category_head[OF f(3)] have "dropWhile isHyphen cat = cat" by (cases cat) auto
  with f show ?thesis by (simp add: dropWhile_append3 list_all_iff dropWhile_append)
qed

lemma detect_standard:
  assumes "isBucketLetter l" "standardForm name l"
  shows "detectBucketFromFolderName name
         = Some \<lparr>detected = toUpperCase [l], pattern = ''standard'', confidenceOf = High\<rparr>"
proof -
  from matchStart_standard[OF assms] obtain q where
    "matchStart BUCKET_STANDARD_PATTERN name = Some [[l], q]" by blast
  then show ?thesis by (simp add: detectBucketFromFolderName_def capture_def)
qed

lemma detect_letter:
  assumes "isBucketLetter l"
  shows "detectBucketFromFolderName [l]
         = Some \<lparr>detected = toUpperCase [l], pattern = ''letter'', confidenceOf = High\<rparr>"
proof -
  have "\<forall>l'. isBucketLetter l' \<longrightarrow> \<not> standardForm [l] l'"
    using standardForm_head[of "[l]"] by auto
  then have 1: "matchStart BUCKET_STANDARD_PATTERN [l] = None"
    by (rule matchStart_standard_None)
  from 1 matchStart_letter[OF assms] show ?thesis
    by (simp add: detectBucketFromFolderName_def capture_def)
qed

lemma detect_custom:
  assumes "isBucketLetter l" "customForm name l" "\<not> standardForm name l"
  shows "detectBucketFromFolderName name
         = Some \<lparr>detected = toUpperCase [l], pattern = ''custom'', confidenceOf = Medium\<rparr>"
proof -
  from customForm_head[OF assms(2)] have h: "name = l # tl name" "tl name \<noteq> []" by simp_all
  have "\<forall>l'. isBucketLetter l' \<longrightarrow> \<not> standardForm name l'"
  proof (intro allI impI notI)
    fix l' assume "standardForm name l'"
    from standardForm_head[OF this] h(1) have "l' = l" by (metis list.inject)
    with \<open>standardForm name l'\<close> assms(3) show False by simp
  qed
  then have 1: "matchStart BUCKET_STANDARD_PATTERN name = None"
    by (rule matchStart_standard_None)
  have "\<forall>l'. isBucketLetter l' \<longrightarrow> name \<noteq> [l']"
    using h by (metis list.sel(3))
  then have 2: "matchStart BUCKET_LETTER_PATTERN name = None"
    by (rule matchStart_letter_None)
  from matchStart_custom[OF assms(1,2)] obtain q where
    3: "matchStart BUCKET_CUSTOM_PATTERN name = Some [[l], q]" by blast
  from 1 2 3 show ?thesis
    by (simp add: detectBucketFromFolderName_def capture_def)
qed

lemma detect_numeric:
  assumes "49 \<le> x" "x \<le> 54"
  shows "detectBucketFromFolderName [48, x]
         = (case NUMERIC_TO_BUCKET_MAP [48, x] of
              None \<Rightarrow> None
            | Some b \<Rightarrow> if b = [] then None
                        else Some \<lparr>detected = b, pattern = ''numeric'', confidenceOf = Low\<rparr>)"
proof -
  have nb: "\<not> isBucketLetter 48" by (simp add: isBucketLetter_def canon_def)
  have "\<forall>l. isBucketLetter l \<longrightarrow> \<not> standardForm [48, x] l"
    using standardForm_head[of "[48, x]"] nb by auto
  then have 1: "matchStart BUCKET_STANDARD_PATTERN [48, x] = None"
    by (rule matchStart_standard_None)
  have 2: "matchStart BUCKET_LETTER_PATTERN [48, x] = None"
    by (rule matchStart_letter_None) simp
  have "\<forall>l. isBucketLetter l \<longrightarrow> \<not> customForm [48, x] l"
    using customForm_head[of "[48, x]"] nb by auto
  then have 3: "matchStart BUCKET_CUSTOM_PATTERN [48, x] = None"
    by (rule matchStart_custom_None)
  from 1 2 3 matchStart_numeric[OF assms] show ?thesis
    by (simp add: detectBucketFromFolderName_def capture_def)
qed

lemma detect_None:
  assumes "\<forall>l. isBucketLetter l \<longrightarrow> \<not> standardForm name l \<and> name \<noteq> [l] \<and> \<not> customForm name l"
    and "\<forall>x. 49 \<le> x \<and> x \<le> 54 \<longrightarrow> name \<noteq> [48, x]"
  shows "detectBucketFromFolderName name = None"
proof -
  from assms(1) have 1: "matchStart BUCKET_STANDARD_PATTERN name = None"
    by (intro matchStart_standard_None) blast
  from assms(1) have 2: "matchStart BUCKET_LETTER_PATTERN name = None"
    by (intro matchStart_letter_None) blast
  from assms(1) have 3: "matchStart BUCKET_CUSTOM_PATTERN name = None"
    by (intro matchStart_custom_None) blast
  from assms(2) have 4: "matchStart BUCKET_NUMERIC_PATTERN name = None"
    by (rule matchStart_numeric_None)
  from 1 2 3 4 show ?thesis by (simp add: detectBucketFromFolderName_def)
qed

lemma legacy_codes:
  "(49 \<le> x \<and> x \<le> 54) = ([48, x] \<in> set (map (js \<circ> fst) legacyCodes))"
proof
  assume "49 \<le> x \<and> x \<le> 54"
  then have "x = 49 \<or> x = 50 \<or> x = 51 \<or> x = 52 \<or> x = 53 \<or> x = 54" by arith
  then show "[48, x] \<in> set (map (js \<circ> fst) legacyCodes)"
    by (auto simp: legacyCodes_def js_def)
next
  assume "[48, x] \<in> set (map (js \<circ> fst) legacyCodes)"
  then show "49 \<le> x \<and> x \<le> 54" by (auto simp: legacyCodes_def js_def)
qed

subsection \<open>What the detector returns for each shape of name\<close>

text \<open>
  For a letter of the class \<open>[A-MX]\<close>, in either case: letter, separators and category name
  give the letter in upper case with confidence high; the letter alone gives it with
  confidence high; letter, separators and a non-empty suffix without line terminators,
  when the name is not of the first shape, give it with confidence medium; the codes 01
  to 06 give A, B, C, D, E, M with confidence low; every other name gives \<open>null\<close>.
\<close>

lemma detection_by_shape:
  "(isBucketLetter l \<and> standardForm name l
      \<longrightarrow> detectBucketFromFolderName name
            = Some \<lparr>detected = toUpperCase [l], pattern = ''standard'', confidenceOf = High\<rparr>)
   \<and> (isBucketLetter l
      \<longrightarrow> detectBucketFromFolderName [l]
            = Some \<lparr>detected = toUpperCase [l], pattern = ''letter'', confidenceOf = High\<rparr>)
   \<and> (isBucketLetter l \<and> customForm name l \<and> \<not> standardForm name l
      \<longrightarrow> detectBucketFromFolderName name
            = Some \<lparr>detected = toUpperCase [l], pattern = ''custom'', confidenceOf = Medium\<rparr>)
   \<and> ((code, b) \<in> set legacyCodes
      \<longrightarrow> detectBucketFromFolderName (js code)
            = Some \<lparr>detected = js b, pattern = ''numeric'', confidenceOf = Low\<rparr>)
   \<and> ((\<forall>l. isBucketLetter l \<longrightarrow> \<not> standardForm name l \<and> name \<noteq> [l] \<and> \<not> customForm name l)
        \<and> name \<notin> set (map (js \<circ> fst) legacyCodes)
      \<longrightarrow> detectBucketFromFolderName name = None)"
proof (intro conjI impI)
  assume "isBucketLetter l \<and> standardForm name l"
  then show "detectBucketFromFolderName name
            = Some \<lparr>detected = toUpperCase [l], pattern = ''standard'', confidenceOf = High\<rparr>"
    using detect_standard by blast
next
  assume "isBucketLetter l"
  then show "detectBucketFromFolderName [l]
            = Some \<lparr>detected = toUpperCase [l], pattern = ''letter'', confidenceOf = High\<rparr>"
    by (rule detect_letter)
next
  assume "isBucketLetter l \<and> customForm name l \<and> \<not> standardForm name l"
  then show "detectBucketFromFolderName name
            = Some \<lparr>detected = toUpperCase [l], pattern = ''custom'', confidenceOf = Medium\<rparr>"
    using detect_custom by blast
next
  assume "(code, b) \<in> set legacyCodes"
  then consider "code = ''01'' \<and> b = ''A''" | "code = ''02'' \<and> b = ''B''"
    | "code = ''03'' \<and> b = ''C''" | "code = ''04'' \<and> b = ''D''"
    | "code = ''05'' \<and> b = ''E''" | "code = ''06'' \<and> b = ''M''"
    by (auto simp: legacyCodes_def)
  then show "detectBucketFromFolderName (js code)
            = Some \<lparr>detected = js b, pattern = ''numeric'', confidenceOf = Low\<rparr>"
  proof cases
    case 1 then show ?thesis using detect_numeric[of 49]
      by (simp add: js_def NUMERIC_TO_BUCKET_MAP_def)
  next
    case 2 then show ?thesis using detect_numeric[of 50]
      by (simp add: js_def NUMERIC_TO_BUCKET_MAP_def)
  next
    case 3 then show ?thesis using detect_numeric[of 51]
      by (simp add: js_def NUMERIC_TO_BUCKET_MAP_def)
  next
    case 4 then show ?thesis using detect_numeric[of 52]
      by (simp add: js_def NUMERIC_TO_BUCKET_MAP_def)
  next
    case 5 then show ?thesis using detect_numeric[of 53]
      by (simp add: js_def NUMERIC_TO_BUCKET_MAP_def)
  next
    case 6 then show ?thesis using detect_numeric[of 54]
      by (simp add: js_def NUMERIC_TO_BUCKET_MAP_def)
  qed
next
  assume a: "(\<forall>l. isBucketLetter l \<longrightarrow> \<not> standardForm name l \<and> name \<noteq> [l] \<and> \<not> customForm name l)
        \<and> name \<notin> set (map (js \<circ> fst) legacyCodes)"
  then have 2: "\<forall>x. 49 \<le> x \<and> x \<le> 54 \<longrightarrow> name \<noteq> [48, x]"
    using legacy_codes by blast
  from a 2 show "detectBucketFromFolderName name = None" by (intro detect_None) blast+
qed

text \<open>The names of the specification's examples, and a name of no shape.\<close>

lemma detection_examples:
  "detectBucketFromFolderName (js ''A_Establishing'')
     = Some \<lparr>detected = js ''A'', pattern = ''standard'', confidenceOf = High\<rparr>
   \<and> detectBucketFromFolderName (js ''a-establishing'')
     = Some \<lparr>detected = js ''A'', pattern = ''standard'', confidenceOf = High\<rparr>
   \<and> detectBucketFromFolderName (js ''A'' @ [8211] @ js ''Establishing'')
     = Some \<lparr>detected = js ''A'', pattern = ''standard'', confidenceOf = High\<rparr>
   \<and> detectBucketFromFolderName (js ''A'')
     = Some \<lparr>detected = js ''A'', pattern = ''letter'', confidenceOf = High\<rparr>
   \<and> detectBucketFromFolderName (js ''A_Whatever'')
     = Some \<lparr>detected = js ''A'', pattern = ''custom'', confidenceOf = Medium\<rparr>
   \<and> detectBucketFromFolderName (js ''01'')
     = Some \<lparr>detected = js ''A'', pattern = ''numeric'', confidenceOf = Low\<rparr>
   \<and> detectBucketFromFolderName (js ''Iceland'') = None"
proof -
  have m: "isBucketLetter 65" "isBucketLetter 97"
    by (simp_all add: isBucketLetter_def canon_def)
  have u: "toUpperCase [65] = js ''A''" "toUpperCase [97] = js ''A''"
    by (simp_all add: toUpperCase_def js_def)
  have e: "isCategoryName (js ''Establishing'')" "isCategoryName (js ''establishing'')"
    by (simp_all add: isCategoryName_def namedCI_def js_def canon_def)
  have s1: "standardForm (js ''A_Establishing'') 65"
    unfolding standardForm_def
    using e(1) by (intro exI[of _ "[95]"] exI[of _ "js ''Establishing''"])
       (simp add: js_def isHyphen_def)
  have s2: "standardForm (js ''a-establishing'') 97"
    unfolding standardForm_def
    using e(2) by (intro exI[of _ "[45]"] exI[of _ "js ''establishing''"])
       (simp add: js_def isHyphen_def)
  have s3: "standardForm (js ''A'' @ [8211] @ js ''Establishing'') 65"
    unfolding standardForm_def
    using e(1) by (intro exI[of _ "[8211]"] exI[of _ "js ''Establishing''"])
       (simp add: js_def isHyphen_def)
  have c1: "customForm (js ''A_Whatever'') 65"
    unfolding customForm_def
    by (intro exI[of _ "[95]"] exI[of _ "js ''Whatever''"])
       (simp add: js_def isHyphen_def isLineTerminator_def)
  have c2: "\<not> standardForm (js ''A_Whatever'') 65"
  proof
    assume "standardForm (js ''A_Whatever'') 65"
    from category_initial[OF standardForm_split[OF this]] show False
      by (simp add: js_def isHyphen_def isWhiteSpace_def canon_def)
  qed
  have l: "(''01'', ''A'') \<in> set legacyCodes" by (simp add: legacyCodes_def)
  have r1: "\<forall>l. isBucketLetter l \<longrightarrow> \<not> standardForm (js ''Iceland'') l
       \<and> js ''Iceland'' \<noteq> [l] \<and> \<not> customForm (js ''Iceland'') l"
    using standardForm_head[of "js ''Iceland''"] customForm_head[of "js ''Iceland''"]
    by (auto simp: js_def isHyphen_def isWhiteSpace_def)
  have r2: "js ''Iceland'' \<notin> set (map (js \<circ> fst) legacyCodes)"
    by (simp add: legacyCodes_def js_def)
  from detection_by_shape[of 65 "js ''A_Establishing''"] m s1 u
  have 1: "detectBucketFromFolderName (js ''A_Establishing'')
     = Some \<lparr>detected = js ''A'', pattern = ''standard'', confidenceOf = High\<rparr>" by simp
  from detection_by_shape[of 97 "js ''a-establishing''"] m s2 u
  have 2: "detectBucketFromFolderName (js ''a-establishing'')
     = Some \<lparr>detected = js ''A'', pattern = ''standard'', confidenceOf = High\<rparr>" by simp
  from detection_by_shape[of 65 "js ''A'' @ [8211] @ js ''Establishing''"] m s3 u
  have 3: "detectBucketFromFolderName (js ''A'' @ [8211] @ js ''Establishing'')
     = Some \<lparr>detected = js ''A'', pattern = ''standard'', confidenceOf = High\<rparr>" by simp
  have ja: "js ''A'' = [65]" by (simp add: js_def)
  from detection_by_shape[of 65] m u
  have 4: "detectBucketFromFolderName (js ''A'')
     = Some \<lparr>detected = js ''A'', pattern = ''letter'', confidenceOf = High\<rparr>"
    unfolding ja by simp
  from detection_by_shape[of 65 "js ''A_Whatever''"] m c1 c2 u
  have 5: "detectBucketFromFolderName (js ''A_Whatever'')
     = Some \<lparr>detected = js ''A'', pattern = ''custom'', confidenceOf = Medium\<rparr>" by simp
  from detection_by_shape[of _ _ "''01''" "''A''"] l
  have 6: "detectBucketFromFolderName (js ''01'')
     = Some \<lparr>detected = js ''A'', pattern = ''numeric'', confidenceOf = Low\<rparr>" by blast
  from detection_by_shape[of _ "js ''Iceland''"] r1 r2
  have 7: "detectBucketFromFolderName (js ''Iceland'') = None" by blast
  from 1 2 3 4 5 6 7 show ?thesis by blast
qed

text \<open>
  The dot of the custom pattern matches no line terminator and the pattern is anchored at
  the end of the name: a letter, a separator and a suffix that holds a line feed give
  \<open>null\<close>.
\<close>

lemma suffix_with_line_feed_not_detected:
  "isMeceLetter 65 \<and> isHyphen 95
   \<and> detectBucketFromFolderName ([65, 95] @ js ''x'' @ [10] @ js ''y'') = None"
proof -
  have 1: "isMeceLetter 65" by (simp add: isMeceLetter_canon canon_def js_def)
  have 2: "isHyphen 95" by (simp add: isHyphen_def)
  have 3: "detectBucketFromFolderName ([65, 95] @ js ''x'' @ [10] @ js ''y'') = None"
    by (simp add: detectBucketFromFolderName_def BUCKET_STANDARD_PATTERN_def
        BUCKET_LETTER_PATTERN_def BUCKET_CUSTOM_PATTERN_def BUCKET_NUMERIC_PATTERN_def
        categories_def rx_simps)
  from 1 2 3 show ?thesis by blast
qed

subsection \<open>Claim about bucket extraction\<close>

text \<open>
  Claim C6: the code departs from the claim. The buckets are the keys of the bucket table,
  A, B, C, D, E, M and X, and \<open>isMeceBucketLabel\<close> accepts no other first letter; by the
  claim every name that is not a bucket letter, alone or followed by a separator, and no
  legacy code gives \<open>null\<close>. The class \<open>[A-MX]\<close> of the three letter patterns also holds the
  letters F to L. So a folder named F is reported as bucket F with confidence high, the
  folder G-People as bucket G with confidence high, and the folder H_Hotel as bucket H
  with confidence medium, none of which is a bucket.
\<close>

theorem letters_outside_bucket_table_detected:
  "js ''F'' \<notin> set MECE_BUCKET_KEYS \<and> js ''G'' \<notin> set MECE_BUCKET_KEYS
   \<and> js ''H'' \<notin> set MECE_BUCKET_KEYS
   \<and> \<not> isMeceBucketLabel (js ''F'') \<and> \<not> isMeceBucketLabel (js ''G-People'')
   \<and> \<not> isMeceBucketLabel (js ''H_Hotel'')
   \<and> detectBucketFromFolderName (js ''F'')
       = Some \<lparr>detected = js ''F'', pattern = ''letter'', confidenceOf = High\<rparr>
   \<and> detectBucketFromFolderName (js ''G-People'')
       = Some \<lparr>detected = js ''G'', pattern = ''standard'', confidenceOf = High\<rparr>
   \<and> detectBucketFromFolderName (js ''H_Hotel'')
       = Some \<lparr>detected = js ''H'', pattern = ''custom'', confidenceOf = Medium\<rparr>"
proof -
  have k: "js ''F'' \<notin> set MECE_BUCKET_KEYS" "js ''G'' \<notin> set MECE_BUCKET_KEYS"
    "js ''H'' \<notin> set MECE_BUCKET_KEYS"
    by (simp_all add: MECE_BUCKET_KEYS_def js_def)
  have b: "\<not> isMeceBucketLabel (js ''F'')" "\<not> isMeceBucketLabel (js ''G-People'')"
    "\<not> isMeceBucketLabel (js ''H_Hotel'')"
    by (simp_all add: isMeceBucketLabel_def MECE_BUCKET_KEYS_def trim_def toUpperCase_def
        isDaySeparator_def isWhiteSpace_def js_def)
  have 1: "detectBucketFromFolderName (js ''F'')
       = Some \<lparr>detected = js ''F'', pattern = ''letter'', confidenceOf = High\<rparr>"
    by (simp add: detectBucketFromFolderName_def BUCKET_STANDARD_PATTERN_def
        BUCKET_LETTER_PATTERN_def toUpperCase_def categories_def rx_simps)
  have 2: "detectBucketFromFolderName (js ''G-People'')
       = Some \<lparr>detected = js ''G'', pattern = ''standard'', confidenceOf = High\<rparr>"
    by (simp add: detectBucketFromFolderName_def BUCKET_STANDARD_PATTERN_def
        toUpperCase_def categories_def rx_simps)
  have 3: "detectBucketFromFolderName (js ''H_Hotel'')
       = Some \<lparr>detected = js ''H'', pattern = ''custom'', confidenceOf = Medium\<rparr>"
    by (simp add: detectBucketFromFolderName_def BUCKET_STANDARD_PATTERN_def
        BUCKET_LETTER_PATTERN_def BUCKET_CUSTOM_PATTERN_def toUpperCase_def categories_def
        rx_simps)
  from k b 1 2 3 show ?thesis by blast
qed

end
